theory Spec2Isabelle
  imports Main "HOL-Library.Word" "HOL-Library.Sublist"
begin

section \<open>Data model (model.go, voronoi.go)\<close>

text \<open>
  Go's \<open>int\<close> is 64 bits wide and its arithmetic wraps around. \<open>NewVoronoi\<close> and
  \<open>initDistances\<close> compute with whatever dimensions the caller passes, so their arithmetic
  is written with the wrap-around (\<open>wrap64\<close> after every operation). The tessellation and
  the export work on a grid that has been allocated: its \<open>width * height\<close> cells are in
  memory, so that its coordinates, radii and byte offsets (at most \<open>4 * width * height\<close>)
  stay far below \<open>2 ^ 63\<close>, and they are written as the integers they are. A \<open>byte\<close> is an
  \<open>8 word\<close>. A nil pointer is \<open>None\<close>. Run-time panics (index out of range, \<open>make\<close>
  with a negative length, \<open>Intn\<close> with a non-positive bound) and the error returned by
  \<open>NewVoronoi\<close> are values of \<open>error\<close>.
\<close>

record Color =
  R :: "8 word"
  G :: "8 word"
  B :: "8 word"
  A :: "8 word"

record Point =
  X :: int
  Y :: int
  Distance :: "int option"
  Color :: "Color option"

record Voronoi =
  width :: int
  height :: int
  numSeeds :: int
  seeds :: "Point list"
  activeSeeds :: "Point list"
  diagram :: "Point option list list"
  radius :: int
  distances :: "int list list"

datatype error = ConfigurationError | IndexOutOfRange | LenOutOfRange | InvalidArgument

subsection \<open>Integers\<close>

text \<open>The value of a 64-bit two's complement \<open>int\<close> holding the mathematical result \<open>n\<close>.\<close>

definition wrap64 :: "int \<Rightarrow> int" where
  "wrap64 n = (n + 2 ^ 63) mod 2 ^ 64 - 2 ^ 63"

subsection \<open>Slices\<close>

text \<open>
  \<open>make\<close> panics on a negative length and returns a slice of any other length: how much
  memory there is is not modelled. Reading or writing outside a slice panics.
\<close>

definition make :: "int \<Rightarrow> 'a \<Rightarrow> error + 'a list" where
  "make n z = (if n < 0 then Inl LenOutOfRange else Inr (replicate (nat n) z))"

definition index :: "'a list \<Rightarrow> int \<Rightarrow> error + 'a" where
  "index xs i = (if 0 \<le> i \<and> i < int (length xs) then Inr (xs ! nat i) else Inl IndexOutOfRange)"

definition store :: "'a list \<Rightarrow> int \<Rightarrow> 'a \<Rightarrow> error + 'a list" where
  "store xs i a = (if 0 \<le> i \<and> i < int (length xs) then Inr (xs[nat i := a]) else Inl IndexOutOfRange)"

definition index2 :: "'a list list \<Rightarrow> int \<Rightarrow> int \<Rightarrow> error + 'a" where
  "index2 xss i j = (case index xss i of Inl e \<Rightarrow> Inl e | Inr xs \<Rightarrow> index xs j)"

definition store2 :: "'a list list \<Rightarrow> int \<Rightarrow> int \<Rightarrow> 'a \<Rightarrow> error + 'a list list" where
  "store2 xss i j a =
     (case index xss i of Inl e \<Rightarrow> Inl e
      | Inr xs \<Rightarrow> (case store xs j a of Inl e \<Rightarrow> Inl e | Inr xs' \<Rightarrow> store xss i xs'))"

text \<open>A loop body run over the elements of a slice, stopping at the first panic.\<close>

fun foldE :: "('a \<Rightarrow> 's \<Rightarrow> error + 's) \<Rightarrow> 'a list \<Rightarrow> 's \<Rightarrow> error + 's" where
  "foldE f [] s = Inr s"
| "foldE f (x # xs) s = (case f x s of Inl e \<Rightarrow> Inl e | Inr s' \<Rightarrow> foldE f xs s')"

text \<open>
  The values of \<open>i\<close> in \<open>for i := 0; i < n; i++\<close>. A loop \<open>for i := 0; i <= m; i++\<close>
  runs over \<open>loopRange (m + 1)\<close>; its bounds below are twice a dimension, wrapped, hence
  even and below the largest \<open>int\<close>, so that neither \<open>m + 1\<close> nor \<open>i++\<close> overflows.
\<close>

definition loopRange :: "int \<Rightarrow> int list" where
  "loopRange n = map int [0..<nat n]"

section \<open>Construction and initialisation\<close>

definition NewVoronoi :: "int \<Rightarrow> int \<Rightarrow> int \<Rightarrow> error + Voronoi" where
  "NewVoronoi w h n =
     (if n > wrap64 (w * h) then Inl ConfigurationError
      else (case make (wrap64 (wrap64 (2 * w) + 1)) [] of Inl e \<Rightarrow> Inl e
        | Inr ds \<Rightarrow> (case make w [] of Inl e \<Rightarrow> Inl e
        | Inr dg \<Rightarrow> Inr \<lparr>width = w, height = h, numSeeds = n, seeds = [], activeSeeds = [],
                         diagram = dg, radius = 0, distances = ds\<rparr>)))"

definition initDistancesCell :: "int \<Rightarrow> int \<Rightarrow> Voronoi \<Rightarrow> error + Voronoi" where
  "initDistancesCell i j v =
     (case store2 (distances v) i j (wrap64 (wrap64 (i * i) + wrap64 (j * j))) of Inl e \<Rightarrow> Inl e
      | Inr ds \<Rightarrow> Inr (v\<lparr>distances := ds\<rparr>))"

definition initDistancesColumn :: "int \<Rightarrow> Voronoi \<Rightarrow> error + Voronoi" where
  "initDistancesColumn i v =
     (case make (wrap64 (wrap64 (2 * height v) + 1)) 0 of Inl e \<Rightarrow> Inl e
      | Inr column \<Rightarrow> (case store (distances v) i column of Inl e \<Rightarrow> Inl e
      | Inr ds \<Rightarrow>
          foldE (initDistancesCell i) (loopRange (wrap64 (2 * height v) + 1))
            (v\<lparr>distances := ds\<rparr>)))"

definition initDistances :: "Voronoi \<Rightarrow> error + Voronoi" where
  "initDistances v = foldE initDistancesColumn (loopRange (wrap64 (2 * width v) + 1)) v"

definition initDiagramCell :: "int \<Rightarrow> int \<Rightarrow> Voronoi \<Rightarrow> error + Voronoi" where
  "initDiagramCell i j v =
     (case store2 (diagram v) i j None of Inl e \<Rightarrow> Inl e
      | Inr dg \<Rightarrow> Inr (v\<lparr>diagram := dg\<rparr>))"

definition initDiagramColumn :: "int \<Rightarrow> Voronoi \<Rightarrow> error + Voronoi" where
  "initDiagramColumn i v =
     (case make (height v) None of Inl e \<Rightarrow> Inl e
      | Inr column \<Rightarrow> (case store (diagram v) i column of Inl e \<Rightarrow> Inl e
      | Inr dg \<Rightarrow> foldE (initDiagramCell i) (loopRange (height v)) (v\<lparr>diagram := dg\<rparr>)))"

definition initDiagram :: "Voronoi \<Rightarrow> error + Voronoi" where
  "initDiagram v = foldE initDiagramColumn (loopRange (width v)) v"

text \<open>
  The random source of \<open>initSeeds\<close> is a parameter: \<open>rnd k\<close> is the raw value behind the
  \<open>k\<close>-th call of \<open>Intn\<close>, which reduces it to the requested range and panics on a
  non-positive bound. Seed \<open>i\<close> draws x, y, R, G, B, A in that order; \<open>Intn(256)\<close>
  cannot panic, so the colour channels are written as their values.
\<close>

definition Intn :: "int \<Rightarrow> int \<Rightarrow> error + int" where
  "Intn raw n = (if n \<le> 0 then Inl InvalidArgument else Inr (raw mod n))"

definition uint8 :: "int \<Rightarrow> 8 word" where
  "uint8 n = word_of_int n"

definition initSeedsStep :: "(nat \<Rightarrow> int) \<Rightarrow> nat \<Rightarrow> Voronoi \<Rightarrow> error + Voronoi" where
  "initSeedsStep rnd i v =
     (case Intn (rnd (6 * i)) (width v) of Inl e \<Rightarrow> Inl e
      | Inr x \<Rightarrow> (case Intn (rnd (6 * i + 1)) (height v) of Inl e \<Rightarrow> Inl e
      | Inr y \<Rightarrow>
         (let seed = \<lparr>X = x, Y = y, Distance = Some 0,
                       Color = Some \<lparr>R = uint8 (rnd (6 * i + 2) mod 256),
                                     G = uint8 (rnd (6 * i + 3) mod 256),
                                     B = uint8 (rnd (6 * i + 4) mod 256),
                                     A = uint8 (rnd (6 * i + 5) mod 256)\<rparr>\<rparr>;
              v1 = v\<lparr>seeds := seeds v @ [seed]\<rparr>
          in (case store2 (diagram v1) (X seed) (Y seed) (Some seed) of Inl e \<Rightarrow> Inl e
              | Inr dg \<Rightarrow> Inr (v1\<lparr>diagram := dg\<rparr>)))))"

definition initSeeds :: "(nat \<Rightarrow> int) \<Rightarrow> Voronoi \<Rightarrow> error + Voronoi" where
  "initSeeds rnd v = foldE (initSeedsStep rnd) [0..<nat (numSeeds v)] (v\<lparr>seeds := []\<rparr>)"

definition initTessellation :: "Voronoi \<Rightarrow> Voronoi" where
  "initTessellation v = v\<lparr>radius := 0, activeSeeds := seeds v\<rparr>"

definition Init :: "(nat \<Rightarrow> int) \<Rightarrow> Voronoi \<Rightarrow> error + Voronoi" where
  "Init rnd v =
     (case initDistances v of Inl e \<Rightarrow> Inl e
      | Inr v1 \<Rightarrow> (case initDiagram v1 of Inl e \<Rightarrow> Inl e
      | Inr v2 \<Rightarrow> (case initSeeds rnd v2 of Inl e \<Rightarrow> Inl e
      | Inr v3 \<Rightarrow> Inr (initTessellation v3))))"

text \<open>The spec's \<open>Initialize\<close>: \<open>NewVoronoi\<close> followed by \<open>Init\<close>, as \<open>main\<close> and \<open>NewGame\<close> do.\<close>

definition Initialize :: "(nat \<Rightarrow> int) \<Rightarrow> int \<Rightarrow> int \<Rightarrow> int \<Rightarrow> error + Voronoi" where
  "Initialize rnd w h n = (case NewVoronoi w h n of Inl e \<Rightarrow> Inl e | Inr v \<Rightarrow> Init rnd v)"

section \<open>Tessellation\<close>

function proximityLoop :: "int \<Rightarrow> int \<Rightarrow> Point list \<Rightarrow> Point list" where
  "proximityLoop dx dy combinations =
     (if dy \<ge> dx
      then proximityLoop (dx + 1) (dy - 1)
             (combinations @ [\<lparr>X = dx, Y = dy, Distance = None, Color = None\<rparr>])
      else combinations)"
  by pat_completeness auto
termination
  by (relation "measure (\<lambda>(dx, dy, c). nat (dy - dx + 1))") auto

declare proximityLoop.simps [simp del]

definition getProximityDistances :: "Voronoi \<Rightarrow> Point list \<times> Voronoi" where
  "getProximityDistances v =
     (let v1 = v\<lparr>radius := radius v + 1\<rparr> in (proximityLoop 0 (radius v1) [], v1))"

definition pointFromDiagram :: "Voronoi \<Rightarrow> int \<Rightarrow> int \<Rightarrow> error + (Point \<times> Voronoi)" where
  "pointFromDiagram v x y =
     (case index2 (diagram v) x y of Inl e \<Rightarrow> Inl e
      | Inr None \<Rightarrow>
          (case store2 (diagram v) x y (Some \<lparr>X = x, Y = y, Distance = None, Color = None\<rparr>) of
             Inl e \<Rightarrow> Inl e
           | Inr dg \<Rightarrow> Inr (\<lparr>X = x, Y = y, Distance = None, Color = None\<rparr>, v\<lparr>diagram := dg\<rparr>))
      | Inr (Some p) \<Rightarrow> Inr (p, v))"

definition assignPointToSeed ::
    "Voronoi \<Rightarrow> Point \<Rightarrow> int \<Rightarrow> int \<Rightarrow> int \<Rightarrow> error + (bool \<times> Voronoi)" where
  "assignPointToSeed v seed distance dx dy =
     (if X seed + dx < 0 \<or> X seed + dx \<ge> width v \<or> Y seed + dy < 0 \<or> Y seed + dy \<ge> height v
      then Inr (False, v)
      else (case pointFromDiagram v (X seed + dx) (Y seed + dy) of Inl e \<Rightarrow> Inl e
        | Inr (p, v1) \<Rightarrow>
           (if Distance p \<noteq> None \<and> the (Distance p) < distance then Inr (False, v1)
            else (case store2 (diagram v1) (X p) (Y p)
                         (Some (p\<lparr>Color := Color seed, Distance := Some distance\<rparr>)) of
                    Inl e \<Rightarrow> Inl e
                  | Inr dg \<Rightarrow> Inr (True, v1\<lparr>diagram := dg\<rparr>)))))"

text \<open>One statement \<open>stillActive = v.assignPointToSeed(seed, distance, dx, dy) || stillActive\<close>.\<close>

definition claimStep ::
    "Point \<Rightarrow> int \<Rightarrow> int \<times> int \<Rightarrow> bool \<times> Voronoi \<Rightarrow> error + (bool \<times> Voronoi)" where
  "claimStep seed distance off st =
     (case assignPointToSeed (snd st) seed distance (fst off) (snd off) of Inl e \<Rightarrow> Inl e
      | Inr (b, v') \<Rightarrow> Inr (b \<or> fst st, v'))"

text \<open>The offsets of the eight calls in \<open>assignPointsToSeed\<close>, in source order.\<close>

definition reflections :: "int \<Rightarrow> int \<Rightarrow> (int \<times> int) list" where
  "reflections dx dy =
     [(dx, dy), (dx, - dy), (dy, dx), (dy, - dx), (- dx, dy), (- dx, - dy), (- dy, dx), (- dy, - dx)]"

definition assignPointsToSeed ::
    "Voronoi \<Rightarrow> Point \<Rightarrow> int \<Rightarrow> int \<Rightarrow> int \<Rightarrow> error + (bool \<times> Voronoi)" where
  "assignPointsToSeed v seed distance dx dy =
     foldE (claimStep seed distance) (reflections dx dy) (False, v)"

text \<open>The body of \<open>for _, distance := range proximityDistances\<close> in \<open>Tessellate\<close>.\<close>

definition distanceStep :: "Point \<Rightarrow> Point \<Rightarrow> bool \<times> Voronoi \<Rightarrow> error + (bool \<times> Voronoi)" where
  "distanceStep seed distance st =
     (case index2 (distances (snd st)) (X distance) (Y distance) of Inl e \<Rightarrow> Inl e
      | Inr d \<Rightarrow>
         (case assignPointsToSeed (snd st) seed d (X distance) (Y distance) of Inl e \<Rightarrow> Inl e
          | Inr (b, v') \<Rightarrow> Inr (b \<or> fst st, v')))"

text \<open>The body of \<open>for _, seed := range v.activeSeeds\<close>.\<close>

definition seedStep ::
    "Point list \<Rightarrow> Point \<Rightarrow> Point list \<times> Voronoi \<Rightarrow> error + (Point list \<times> Voronoi)" where
  "seedStep proximityDistances seed st =
     (case foldE (distanceStep seed) proximityDistances (False, snd st) of Inl e \<Rightarrow> Inl e
      | Inr (stillActive, v') \<Rightarrow>
          Inr (if stillActive then fst st @ [seed] else fst st, v'))"

text \<open>One pass of the outer loop of \<open>Tessellate\<close>: one ring.\<close>

definition tessellateRing :: "Voronoi \<Rightarrow> error + Voronoi" where
  "tessellateRing v =
     (case getProximityDistances v of (proximityDistances, v1) \<Rightarrow>
        (case foldE (seedStep proximityDistances) (activeSeeds v1) ([], v1) of Inl e \<Rightarrow> Inl e
         | Inr (stillActiveSeeds, v2) \<Rightarrow> Inr (v2\<lparr>activeSeeds := stillActiveSeeds\<rparr>)))"

section \<open>Export\<close>

text \<open>The four stores \<open>pixels[pos] = r\<close>, ..., \<open>pixels[pos+3] = a\<close>.\<close>

definition writePixel ::
    "8 word list \<Rightarrow> int \<Rightarrow> 8 word \<Rightarrow> 8 word \<Rightarrow> 8 word \<Rightarrow> 8 word \<Rightarrow> error + 8 word list" where
  "writePixel pixels pos r g b a =
     (case store pixels pos r of Inl e \<Rightarrow> Inl e
      | Inr p1 \<Rightarrow> (case store p1 (pos + 1) g of Inl e \<Rightarrow> Inl e
      | Inr p2 \<Rightarrow> (case store p2 (pos + 2) b of Inl e \<Rightarrow> Inl e
      | Inr p3 \<Rightarrow> store p3 (pos + 3) a)))"

text \<open>The body of the inner loop of \<open>ToPixels\<close>, for the cell \<open>(i, j)\<close>.\<close>

definition pixelStep :: "Voronoi \<Rightarrow> int \<Rightarrow> int \<Rightarrow> 8 word list \<Rightarrow> error + 8 word list" where
  "pixelStep v i j pixels =
     (let pos = (j * width v + i) * 4 in
      (case index2 (diagram v) i j of Inl e \<Rightarrow> Inl e
       | Inr None \<Rightarrow> writePixel pixels pos 0 0 0 0
       | Inr (Some p) \<Rightarrow>
           (case Color p of
              Some c \<Rightarrow> writePixel pixels pos (R c) (G c) (B c) (A c)
            | None \<Rightarrow> writePixel pixels pos 0 0 0 0)))"

text \<open>The body of the loop over the seeds.\<close>

definition seedPixelStep :: "Voronoi \<Rightarrow> Point \<Rightarrow> 8 word list \<Rightarrow> error + 8 word list" where
  "seedPixelStep v s pixels = writePixel pixels ((Y s * width v + X s) * 4) 0 0 0 0"

definition ToPixels :: "Voronoi \<Rightarrow> error + 8 word list" where
  "ToPixels v =
     (case make (width v * height v * 4) 0 of Inl e \<Rightarrow> Inl e
      | Inr pixels \<Rightarrow>
         (case foldE (\<lambda>i. foldE (pixelStep v i) (loopRange (height v))) (loopRange (width v)) pixels of
            Inl e \<Rightarrow> Inl e
          | Inr pixels1 \<Rightarrow> foldE (seedPixelStep v) (seeds v) pixels1))"

section \<open>Loops, slices and the grid: basic facts\<close>

lemma foldE_append:
  "foldE f (xs @ ys) s = (case foldE f xs s of Inl e \<Rightarrow> Inl e | Inr s' \<Rightarrow> foldE f ys s')"
  by (induction xs arbitrary: s) (auto split: sum.splits)

lemma foldE_invariant:
  assumes "foldE f xs s = Inr s'" and "P s"
    and "\<And>x t t'. x \<in> set xs \<Longrightarrow> P t \<Longrightarrow> f x t = Inr t' \<Longrightarrow> P t'"
  shows "P s'"
  using assms
proof (induction xs arbitrary: s)
  case Nil
  then show ?case by simp
next
  case (Cons x xs)
  from Cons.prems(1) obtain t where t: "f x s = Inr t" and r: "foldE f xs t = Inr s'"
    by (auto split: sum.splits)
  have "P t" using Cons.prems(2,3) t by auto
  then show ?case using Cons.IH [OF r] Cons.prems(3) by auto
qed

lemma foldE_total:
  assumes "P s"
    and "\<And>x t. x \<in> set xs \<Longrightarrow> P t \<Longrightarrow> \<exists>t'. f x t = Inr t' \<and> P t'"
  shows "\<exists>s'. foldE f xs s = Inr s' \<and> P s'"
  using assms
proof (induction xs arbitrary: s)
  case Nil
  then show ?case by simp
next
  case (Cons x xs)
  from Cons.prems obtain t where t: "f x s = Inr t" "P t" by (meson list.set_intros(1))
  have "\<exists>s'. foldE f xs t = Inr s' \<and> P s'"
    by (rule Cons.IH [OF t(2)]) (use Cons.prems(2) in auto)
  then show ?case using t by simp
qed

text \<open>
  A valid grid has \<open>width\<close> columns of \<open>height\<close> cells, and every stored point carries
  its own coordinates and a distance: what \<open>initDiagram\<close> and \<open>initSeeds\<close> build and what
  claims keep.
\<close>

definition inBounds :: "Voronoi \<Rightarrow> int \<Rightarrow> int \<Rightarrow> bool" where
  "inBounds v x y = (0 \<le> x \<and> x < width v \<and> 0 \<le> y \<and> y < height v)"

definition cellAt :: "Voronoi \<Rightarrow> int \<Rightarrow> int \<Rightarrow> Point option" where
  "cellAt v x y = (case index2 (diagram v) x y of Inl e \<Rightarrow> None | Inr c \<Rightarrow> c)"

definition validGrid :: "Voronoi \<Rightarrow> bool" where
  "validGrid v =
     (length (diagram v) = nat (width v) \<and>
      (\<forall>c \<in> set (diagram v). length c = nat (height v)) \<and>
      (\<forall>(i, c) \<in> set (enumerate 0 (diagram v)). \<forall>(j, cell) \<in> set (enumerate 0 c).
          case cell of None \<Rightarrow> True
          | Some p \<Rightarrow> X p = int i \<and> Y p = int j \<and> Distance p \<noteq> None))"

lemma index_Inr_iff: "index xs i = Inr a \<longleftrightarrow> 0 \<le> i \<and> i < int (length xs) \<and> xs ! nat i = a"
  by (auto simp: index_def)

lemma store_Inr_iff:
  "store xs i a = Inr ys \<longleftrightarrow> 0 \<le> i \<and> i < int (length xs) \<and> ys = xs[nat i := a]"
  by (auto simp: store_def)

lemma index2_Inr_iff:
  "index2 xss i j = Inr a \<longleftrightarrow>
     0 \<le> i \<and> i < int (length xss) \<and> 0 \<le> j \<and> j < int (length (xss ! nat i)) \<and> xss ! nat i ! nat j = a"
  by (auto simp: index2_def index_def)

lemma store2_Inr_iff:
  "store2 xss i j a = Inr yss \<longleftrightarrow>
     0 \<le> i \<and> i < int (length xss) \<and> 0 \<le> j \<and> j < int (length (xss ! nat i)) \<and>
     yss = xss[nat i := (xss ! nat i)[nat j := a]]"
  by (auto simp: store2_def index_def store_def)

lemma cellAt_Some_iff:
  "cellAt v x y = Some p \<longleftrightarrow>
     0 \<le> x \<and> x < int (length (diagram v)) \<and> 0 \<le> y \<and> y < int (length (diagram v ! nat x)) \<and>
     diagram v ! nat x ! nat y = Some p"
  by (auto simp: cellAt_def index2_Inr_iff split: sum.splits)
     (auto simp: index2_def index_def split: if_splits)

lemma validGrid_iff:
  "validGrid v \<longleftrightarrow>
     length (diagram v) = nat (width v) \<and>
     (\<forall>c \<in> set (diagram v). length c = nat (height v)) \<and>
     (\<forall>x y p. cellAt v x y = Some p \<longrightarrow> X p = x \<and> Y p = y \<and> Distance p \<noteq> None)"
proof -
  have "(\<forall>(i, c) \<in> set (enumerate 0 (diagram v)). \<forall>(j, cell) \<in> set (enumerate 0 c).
          case cell of None \<Rightarrow> True
          | Some p \<Rightarrow> X p = int i \<and> Y p = int j \<and> Distance p \<noteq> None)
        \<longleftrightarrow> (\<forall>x y p. cellAt v x y = Some p \<longrightarrow> X p = x \<and> Y p = y \<and> Distance p \<noteq> None)"
    (is "?L \<longleftrightarrow> ?R")
  proof
    assume l: ?L
    show ?R
    proof (intro allI impI)
      fix x y p assume c: "cellAt v x y = Some p"
      then have b: "nat x < length (diagram v)" "nat y < length (diagram v ! nat x)"
        "diagram v ! nat x ! nat y = Some p" "0 \<le> x" "0 \<le> y"
        by (auto simp: cellAt_Some_iff)
      have "(nat x, diagram v ! nat x) \<in> set (enumerate 0 (diagram v))"
        using b by (simp add: in_set_enumerate_eq)
      moreover have "(nat y, Some p) \<in> set (enumerate 0 (diagram v ! nat x))"
        using b by (simp add: in_set_enumerate_eq)
      ultimately show "X p = x \<and> Y p = y \<and> Distance p \<noteq> None"
        using l b(4,5) by fastforce
    qed
  next
    assume r: ?R
    show ?L
    proof (clarsimp simp: in_set_enumerate_eq split: option.splits)
      fix i j p
      assume a: "i < length (diagram v)" "j < length (diagram v ! i)" "diagram v ! i ! j = Some p"
      then have "cellAt v (int i) (int j) = Some p" by (simp add: cellAt_Some_iff)
      then show "X p = int i \<and> Y p = int j \<and> (\<exists>y. Distance p = Some y)" using r by blast
    qed
  qed
  then show ?thesis unfolding validGrid_def by blast
qed

subsection \<open>A claim attempt on a valid grid\<close>

definition setCell :: "Voronoi \<Rightarrow> int \<Rightarrow> int \<Rightarrow> Point option \<Rightarrow> Voronoi" where
  "setCell v x y c = v\<lparr>diagram := (diagram v)[nat x := (diagram v ! nat x)[nat y := c]]\<rparr>"

definition claimed :: "Point \<Rightarrow> int \<Rightarrow> int \<Rightarrow> int \<Rightarrow> Point" where
  "claimed seed distance x y = \<lparr>X = x, Y = y, Distance = Some distance, Color = Color seed\<rparr>"

lemma validGrid_index2:
  assumes "validGrid v" "inBounds v x y"
  shows "index2 (diagram v) x y = Inr (cellAt v x y)"
proof -
  have "nat x < length (diagram v)" using assms by (auto simp: validGrid_iff inBounds_def)
  then have "length (diagram v ! nat x) = nat (height v)"
    using assms(1) by (auto simp: validGrid_iff)
  then show ?thesis using assms
    by (auto simp: cellAt_def index2_def index_def validGrid_iff inBounds_def)
qed

lemma validGrid_store2:
  assumes "validGrid v" "inBounds v x y"
  shows "store2 (diagram v) x y c = Inr (diagram (setCell v x y c))"
proof -
  have "nat x < length (diagram v)" using assms by (auto simp: validGrid_iff inBounds_def)
  then have "length (diagram v ! nat x) = nat (height v)"
    using assms(1) by (auto simp: validGrid_iff)
  then show ?thesis using assms
    by (auto simp: store2_Inr_iff setCell_def validGrid_iff inBounds_def)
qed

lemma setCell_fields [simp]:
  "width (setCell v x y c) = width v" "height (setCell v x y c) = height v"
  "seeds (setCell v x y c) = seeds v" "activeSeeds (setCell v x y c) = activeSeeds v"
  "radius (setCell v x y c) = radius v" "distances (setCell v x y c) = distances v"
  "numSeeds (setCell v x y c) = numSeeds v"
  by (simp_all add: setCell_def)

lemma inBounds_setCell [simp]: "inBounds (setCell v x y c) x' y' = inBounds v x' y'"
  by (simp add: inBounds_def)

lemma setCell_setCell [simp]: "setCell (setCell v x y c) x y c' = setCell v x y c'"
  by (cases "nat x < length (diagram v)") (simp_all add: setCell_def list_update_beyond)

lemma diagram_setCell_eq: "v\<lparr>diagram := diagram (setCell v x y c)\<rparr> = setCell v x y c"
  by (simp add: setCell_def)

lemma cellAt_setCell:
  assumes "validGrid v" "inBounds v x y"
  shows "cellAt (setCell v x y c) x' y' = (if x' = x \<and> y' = y then c else cellAt v x' y')"
proof -
  have lx: "nat x < length (diagram v)" using assms by (auto simp: validGrid_iff inBounds_def)
  then have ly: "length (diagram v ! nat x) = nat (height v)"
    using assms(1) by (auto simp: validGrid_iff)
  have nn: "0 \<le> x" "0 \<le> y" "nat y < nat (height v)" using assms(2) by (auto simp: inBounds_def)
  show ?thesis
  proof (cases "x' = x")
    case True
    then show ?thesis using lx ly nn
      by (auto simp: cellAt_def index2_def index_def setCell_def nth_list_update)
  next
    case False
    then have "0 \<le> x' \<Longrightarrow> nat x' \<noteq> nat x" using nn by auto
    then show ?thesis using False
      by (auto simp: cellAt_def index2_def index_def setCell_def nth_list_update)
  qed
qed

lemma validGrid_setCell:
  assumes "validGrid v" "inBounds v x y"
    and "\<And>p. c = Some p \<Longrightarrow> X p = x \<and> Y p = y \<and> Distance p \<noteq> None"
  shows "validGrid (setCell v x y c)"
proof -
  have dims: "length (diagram v) = nat (width v)" "\<forall>c \<in> set (diagram v). length c = nat (height v)"
    using assms(1) by (auto simp: validGrid_iff)
  have lx: "nat x < length (diagram v)" using assms by (auto simp: validGrid_iff inBounds_def)
  have "\<forall>col \<in> set (diagram (setCell v x y c)). length col = nat (height (setCell v x y c))"
  proof
    fix col assume "col \<in> set (diagram (setCell v x y c))"
    then have "col \<in> insert ((diagram v ! nat x)[nat y := c]) (set (diagram v))"
      using set_update_subset_insert by (fastforce simp: setCell_def)
    then show "length col = nat (height (setCell v x y c))"
      using dims lx by auto
  qed
  moreover have "length (diagram (setCell v x y c)) = nat (width (setCell v x y c))"
    using dims by (simp add: setCell_def)
  moreover have "\<forall>x' y' p. cellAt (setCell v x y c) x' y' = Some p \<longrightarrow>
      X p = x' \<and> Y p = y' \<and> Distance p \<noteq> None"
    using assms by (auto simp: cellAt_setCell validGrid_iff)
  ultimately show ?thesis by (subst validGrid_iff) blast
qed

lemma pointFromDiagram_valid:
  assumes "validGrid v" "inBounds v x y"
  shows "pointFromDiagram v x y =
     (case cellAt v x y of
        None \<Rightarrow> Inr (\<lparr>X = x, Y = y, Distance = None, Color = None\<rparr>,
                     setCell v x y (Some \<lparr>X = x, Y = y, Distance = None, Color = None\<rparr>))
      | Some p \<Rightarrow> Inr (p, v))"
  using assms
  by (simp add: pointFromDiagram_def validGrid_index2 validGrid_store2 diagram_setCell_eq
           split: option.splits)

lemma assignPointToSeed_outside:
  "\<not> inBounds v (X seed + dx) (Y seed + dy) \<Longrightarrow>
     assignPointToSeed v seed distance dx dy = Inr (False, v)"
  by (auto simp: assignPointToSeed_def inBounds_def)

lemma store2_setCell_fresh:
  assumes "validGrid v" "inBounds v x y"
  shows "store2 (diagram (setCell v x y c)) x y c' = Inr (diagram (setCell v x y c'))"
proof -
  have lx: "nat x < length (diagram v)" using assms by (auto simp: validGrid_iff inBounds_def)
  then have "length (diagram v ! nat x) = nat (height v)"
    using assms(1) by (auto simp: validGrid_iff)
  then show ?thesis using assms lx
    by (auto simp: store2_Inr_iff setCell_def validGrid_iff inBounds_def)
qed

lemma assignPointToSeed_unfold:
  "inBounds v (X seed + dx) (Y seed + dy) \<Longrightarrow>
   assignPointToSeed v seed distance dx dy =
     (case pointFromDiagram v (X seed + dx) (Y seed + dy) of Inl e \<Rightarrow> Inl e
      | Inr (p, v1) \<Rightarrow>
         (if Distance p \<noteq> None \<and> the (Distance p) < distance then Inr (False, v1)
          else (case store2 (diagram v1) (X p) (Y p)
                       (Some (p\<lparr>Color := Color seed, Distance := Some distance\<rparr>)) of
                  Inl e \<Rightarrow> Inl e
                | Inr dg \<Rightarrow> Inr (True, v1\<lparr>diagram := dg\<rparr>))))"
  by (auto simp: assignPointToSeed_def inBounds_def)

lemma assignPointToSeed_inside:
  assumes "validGrid v" "inBounds v (X seed + dx) (Y seed + dy)"
  shows "assignPointToSeed v seed distance dx dy =
     (case cellAt v (X seed + dx) (Y seed + dy) of
        None \<Rightarrow> Inr (True, setCell v (X seed + dx) (Y seed + dy)
                              (Some (claimed seed distance (X seed + dx) (Y seed + dy))))
      | Some p \<Rightarrow>
          if the (Distance p) < distance then Inr (False, v)
          else Inr (True, setCell v (X seed + dx) (Y seed + dy)
                              (Some (claimed seed distance (X seed + dx) (Y seed + dy)))))"
proof (cases "cellAt v (X seed + dx) (Y seed + dy)")
  case None
  then show ?thesis using assms
    by (simp add: assignPointToSeed_unfold pointFromDiagram_valid
          store2_setCell_fresh claimed_def diagram_setCell_eq)
next
  case (Some p)
  then have p: "X p = X seed + dx" "Y p = Y seed + dy" "Distance p \<noteq> None"
    using assms(1) by (auto simp: validGrid_iff)
  have eq: "p\<lparr>Color := Color seed, Distance := Some distance\<rparr> =
      claimed seed distance (X seed + dx) (Y seed + dy)"
    using p by (cases p) (simp add: claimed_def)
  show ?thesis using assms Some p
    by (auto simp: assignPointToSeed_unfold pointFromDiagram_valid eq
          validGrid_store2 diagram_setCell_eq)
qed

subsection \<open>The octant walk of \<open>getProximityDistances\<close>\<close>

definition offsetPoint :: "int \<Rightarrow> int \<Rightarrow> Point" where
  "offsetPoint dx dy = \<lparr>X = dx, Y = dy, Distance = None, Color = None\<rparr>"

lemma proximityLoop_eq:
  "proximityLoop dx dy acc =
     acc @ map (\<lambda>k. offsetPoint (dx + int k) (dy - int k)) [0..<nat ((dy - dx) div 2 + 1)]"
proof (induction dx dy acc rule: proximityLoop.induct)
  case (1 dx dy acc)
  show ?case
  proof (cases "dy \<ge> dx")
    case False
    then have "nat ((dy - dx) div 2 + 1) = 0" by simp
    then show ?thesis using False by (simp add: proximityLoop.simps [of dx dy])
  next
    case True
    define n where "n = nat ((dy - dx) div 2)"
    have n1: "nat ((dy - dx) div 2 + 1) = Suc n" using True by (simp add: n_def nat_add_distrib)
    have n2: "nat ((dy - 1 - (dx + 1)) div 2 + 1) = n"
    proof -
      have "(dy - 1 - (dx + 1)) div 2 + 1 = (dy - dx) div 2" by simp
      then show ?thesis by (simp add: n_def)
    qed
    have "proximityLoop dx dy acc =
        proximityLoop (dx + 1) (dy - 1) (acc @ [\<lparr>X = dx, Y = dy, Distance = None, Color = None\<rparr>])"
      using True by (simp add: proximityLoop.simps [of dx dy])
    also have "\<dots> = (acc @ [offsetPoint dx dy]) @
        map (\<lambda>k. offsetPoint (dx + 1 + int k) (dy - 1 - int k)) [0..<n]"
      using "1.IH" [OF True] n2 by (simp add: offsetPoint_def)
    also have "\<dots> = acc @ map (\<lambda>k. offsetPoint (dx + int k) (dy - int k)) [0..<Suc n]"
    proof -
      have "[0..<Suc n] = 0 # map Suc [0..<n]"
        by (simp add: upt_conv_Cons map_Suc_upt del: upt_Suc)
      then show ?thesis by (simp add: comp_def algebra_simps del: upt_Suc)
    qed
    finally show ?thesis by (simp only: n1)
  qed
qed

text \<open>Everything but the diagram is left alone by a claim.\<close>

definition sameButDiagram :: "Voronoi \<Rightarrow> Voronoi \<Rightarrow> bool" where
  "sameButDiagram v v' =
     (width v' = width v \<and> height v' = height v \<and> numSeeds v' = numSeeds v \<and>
      seeds v' = seeds v \<and> activeSeeds v' = activeSeeds v \<and> radius v' = radius v \<and>
      distances v' = distances v)"

lemma sameButDiagram_refl [simp]: "sameButDiagram v v"
  by (simp add: sameButDiagram_def)

lemma sameButDiagram_trans: "sameButDiagram a b \<Longrightarrow> sameButDiagram b c \<Longrightarrow> sameButDiagram a c"
  by (simp add: sameButDiagram_def)

lemma sameButDiagram_update [simp]: "sameButDiagram v (v\<lparr>diagram := dg\<rparr>)"
  by (simp add: sameButDiagram_def)

lemma pointFromDiagram_frame:
  "pointFromDiagram v x y = Inr (p, v') \<Longrightarrow> sameButDiagram v v'"
  by (auto simp: pointFromDiagram_def split: sum.splits option.splits)

lemma assignPointToSeed_frame:
  assumes "assignPointToSeed v seed distance dx dy = Inr (b, v')"
  shows "sameButDiagram v v'"
proof (cases "inBounds v (X seed + dx) (Y seed + dy)")
  case False
  then show ?thesis using assms by (simp add: assignPointToSeed_outside)
next
  case True
  from assms obtain p v1 where pf: "pointFromDiagram v (X seed + dx) (Y seed + dy) = Inr (p, v1)"
    and r: "sameButDiagram v1 v'"
    by (auto simp: assignPointToSeed_unfold [OF True] split: sum.splits if_splits)
  have "sameButDiagram v v1" using pf by (rule pointFromDiagram_frame)
  then show ?thesis using r by (rule sameButDiagram_trans)
qed

lemma claimStep_frame:
  "claimStep seed distance off st = Inr st' \<Longrightarrow> sameButDiagram (snd st) (snd st')"
  by (auto simp: claimStep_def split: sum.splits dest: assignPointToSeed_frame)

lemma foldE_frame:
  assumes "foldE f xs st = Inr st'"
    and "\<And>x t t'. f x t = Inr t' \<Longrightarrow> sameButDiagram (snd t) (snd t')"
  shows "sameButDiagram (snd st) (snd st')"
  using assms(1)
  by (rule foldE_invariant [where P = "\<lambda>t. sameButDiagram (snd st) (snd t)"])
     (auto intro: sameButDiagram_trans assms(2))

lemma assignPointsToSeed_frame:
  "assignPointsToSeed v seed distance dx dy = Inr (b, v') \<Longrightarrow> sameButDiagram v v'"
  unfolding assignPointsToSeed_def
  using foldE_frame [OF _ claimStep_frame] by fastforce

lemma distanceStep_frame:
  "distanceStep seed pt st = Inr st' \<Longrightarrow> sameButDiagram (snd st) (snd st')"
  by (auto simp: distanceStep_def split: sum.splits dest: assignPointsToSeed_frame)

lemma seedStep_frame:
  assumes "seedStep prox seed st = Inr st'"
  shows "sameButDiagram (snd st) (snd st')"
proof -
  from assms obtain b v' where f: "foldE (distanceStep seed) prox (False, snd st) = Inr (b, v')"
    and s: "snd st' = v'"
    by (auto simp: seedStep_def split: sum.splits)
  show ?thesis using foldE_frame [OF f distanceStep_frame] s by simp
qed

lemma tessellateRing_frame:
  assumes "tessellateRing v = Inr v'"
  shows "width v' = width v" "height v' = height v" "numSeeds v' = numSeeds v"
    "seeds v' = seeds v" "radius v' = radius v + 1" "distances v' = distances v"
proof -
  let ?v1 = "v\<lparr>radius := radius v + 1\<rparr>"
  from assms obtain still v2 where
    f: "foldE (seedStep (proximityLoop 0 (radius v + 1) [])) (activeSeeds v) ([], ?v1) = Inr (still, v2)"
    and v': "v' = v2\<lparr>activeSeeds := still\<rparr>"
    by (auto simp: tessellateRing_def getProximityDistances_def Let_def split: sum.splits)
  have "sameButDiagram ?v1 v2" using foldE_frame [OF f seedStep_frame] by simp
  then show "width v' = width v" "height v' = height v" "numSeeds v' = numSeeds v"
    "seeds v' = seeds v" "radius v' = radius v + 1" "distances v' = distances v"
    unfolding v' sameButDiagram_def by simp_all
qed

section \<open>The loop of \<open>Tessellate\<close>\<close>

lemma proximityLoop_negative: "r < 0 \<Longrightarrow> proximityLoop 0 r [] = []"
  by (simp add: proximityLoop.simps [of 0 r])

lemma proximityLoop_first:
  "0 \<le> r \<Longrightarrow> \<exists>rest. proximityLoop 0 r [] = offsetPoint 0 r # rest"
proof -
  assume "0 \<le> r"
  then have "proximityLoop 0 r [] = proximityLoop 1 (r - 1) [offsetPoint 0 r]"
    by (simp add: proximityLoop.simps [of 0 r] offsetPoint_def)
  then show ?thesis by (simp add: proximityLoop_eq [of 1])
qed

lemma seedStep_no_offsets: "seedStep [] seed st = Inr st"
  by (simp add: seedStep_def)

lemma foldE_seedStep_no_offsets: "foldE (seedStep []) ss st = Inr st"
  by (induction ss) (simp_all add: seedStep_no_offsets)

lemma tessellateRing_negative_radius:
  assumes "tessellateRing v = Inr v'" "radius v + 1 < 0"
  shows "activeSeeds v' = []"
  using assms
  by (auto simp: tessellateRing_def getProximityDistances_def Let_def proximityLoop_negative
        foldE_seedStep_no_offsets)

lemma tessellateRing_lookup:
  assumes "tessellateRing v = Inr v'" "activeSeeds v \<noteq> []" "0 \<le> radius v + 1"
  shows "radius v + 1 < int (length (distances v ! 0))"
proof -
  let ?v1 = "v\<lparr>radius := radius v + 1\<rparr>"
  obtain s ss where act: "activeSeeds v = s # ss" using assms(2) by (cases "activeSeeds v") auto
  obtain rest where prox: "proximityLoop 0 (radius v + 1) [] = offsetPoint 0 (radius v + 1) # rest"
    using proximityLoop_first [OF assms(3)] by blast
  from assms(1) obtain st where "seedStep (offsetPoint 0 (radius v + 1) # rest) s ([], ?v1) = Inr st"
    by (auto simp: tessellateRing_def getProximityDistances_def Let_def act prox split: sum.splits)
  then obtain st' where "distanceStep s (offsetPoint 0 (radius v + 1)) (False, ?v1) = Inr st'"
    by (auto simp: seedStep_def split: sum.splits)
  then obtain d where "index2 (distances v) 0 (radius v + 1) = Inr d"
    by (auto simp: distanceStep_def offsetPoint_def split: sum.splits)
  then show ?thesis by (simp add: index2_Inr_iff)
qed

text \<open>
  \<open>Tessellate\<close>. The loop ends: each ring raises the radius, and a ring with an active
  seed looks up the distance table at \<open>[0][radius]\<close>, which panics once the radius
  has left the table.
\<close>

function Tessellate :: "bool \<Rightarrow> Voronoi \<Rightarrow> error + Voronoi" where
  "Tessellate hideIterations v =
     (if length (activeSeeds v) > 0
      then (case tessellateRing v of Inl e \<Rightarrow> Inl e
            | Inr v' \<Rightarrow> if \<not> hideIterations then Inr v' else Tessellate hideIterations v')
      else Inr v)"
  by pat_completeness auto
termination
proof (relation "measure (\<lambda>(h, v). if activeSeeds v = [] then 0
          else 1 + nat (int (length (distances v ! 0)) - radius v))")
  show "wf (measure (\<lambda>(h, v). if activeSeeds v = [] then 0
          else 1 + nat (int (length (distances v ! 0)) - radius v)))"
    by simp
next
  fix hideIterations :: bool and v v' :: Voronoi
  assume act: "0 < length (activeSeeds v)" and ring: "tessellateRing v = Inr v'"
    and "\<not> \<not> hideIterations"
  have fr: "radius v' = radius v + 1" "distances v' = distances v"
    using tessellateRing_frame [OF ring] by simp_all
  show "((hideIterations, v'), (hideIterations, v)) \<in> measure (\<lambda>(h, v). if activeSeeds v = [] then 0
          else 1 + nat (int (length (distances v ! 0)) - radius v))"
  proof (cases "0 \<le> radius v + 1")
    case True
    have "radius v + 1 < int (length (distances v ! 0))"
      using tessellateRing_lookup [OF ring _ True] act by simp
    then show ?thesis using act fr by auto
  next
    case False
    then have "activeSeeds v' = []" using tessellateRing_negative_radius [OF ring] by simp
    then show ?thesis using act by auto
  qed
qed

declare Tessellate.simps [simp del]

text \<open>Repeated calls of \<open>Tessellate\<close> by the frame loop.\<close>

fun steps :: "bool list \<Rightarrow> Voronoi \<Rightarrow> error + Voronoi" where
  "steps [] v = Inr v"
| "steps (h # hs) v = (case Tessellate h v of Inl e \<Rightarrow> Inl e | Inr v' \<Rightarrow> steps hs v')"

section \<open>What initialisation builds\<close>

lemma wrap64_id: "- (2 ^ 63) \<le> n \<Longrightarrow> n < 2 ^ 63 \<Longrightarrow> wrap64 n = n"
  by (simp add: wrap64_def)

text \<open>The squared distances, as integers; and the table that \<open>initDistances\<close> stores.\<close>

definition distanceTable :: "int \<Rightarrow> int \<Rightarrow> int list list" where
  "distanceTable w h =
     map (\<lambda>i. map (\<lambda>j. i * i + j * j) (loopRange (2 * h + 1))) (loopRange (2 * w + 1))"

definition tableEntry :: "int \<Rightarrow> int \<Rightarrow> int" where
  "tableEntry i j = wrap64 (wrap64 (i * i) + wrap64 (j * j))"

definition builtTable :: "int \<Rightarrow> int \<Rightarrow> int list list" where
  "builtTable w h =
     map (\<lambda>i. map (\<lambda>j. tableEntry i j) (loopRange (2 * h + 1))) (loopRange (2 * w + 1))"

lemma index2_distanceTable:
  "index2 (distanceTable w h) i j =
     (if 0 \<le> i \<and> i \<le> 2 * w \<and> 0 \<le> j \<and> j \<le> 2 * h then Inr (i * i + j * j)
      else Inl IndexOutOfRange)"
  by (auto simp: index2_def index_def distanceTable_def loopRange_def split: if_splits)

lemma square_le:
  fixes i m :: int
  assumes "0 \<le> i" "i \<le> m"
  shows "i * i \<le> m * m"
  using assms by (intro mult_mono) simp_all

lemma sum_bounds:
  fixes a b c d k :: int
  assumes "a \<le> 4 * c" "b \<le> 4 * d" "4 * (c + d) < k" "0 \<le> a" "0 \<le> b" "0 \<le> c" "0 \<le> d"
  shows "a < k \<and> b < k \<and> a + b < k"
  using assms by auto

lemma tableEntry_small:
  assumes "0 \<le> i" "i \<le> 2 * w" "0 \<le> j" "j \<le> 2 * h" "4 * (w * w + h * h) < 2 ^ 63"
  shows "tableEntry i j = i * i + j * j"
proof -
  have "i * i \<le> (2 * w) * (2 * w)" "j * j \<le> (2 * h) * (2 * h)"
    using square_le [OF assms(1,2)] square_le [OF assms(3,4)] by blast+
  then have "i * i \<le> 4 * (w * w)" "j * j \<le> 4 * (h * h)" by simp_all
  from sum_bounds [OF this assms(5)]
  have "i * i < 2 ^ 63" "j * j < 2 ^ 63" "i * i + j * j < 2 ^ 63" by simp_all
  moreover have "- (2 ^ 63) \<le> i * i" "- (2 ^ 63) \<le> j * j" "- (2 ^ 63) \<le> i * i + j * j"
  proof -
    have neg: "- (2 ^ 63) \<le> (0::int)" by simp
    show "- (2 ^ 63) \<le> i * i" by (rule order_trans [OF neg zero_le_square])
    show "- (2 ^ 63) \<le> j * j" by (rule order_trans [OF neg zero_le_square])
    show "- (2 ^ 63) \<le> i * i + j * j"
      by (rule order_trans [OF neg add_nonneg_nonneg [OF zero_le_square zero_le_square]])
  qed
  ultimately show ?thesis unfolding tableEntry_def by (simp only: wrap64_id)
qed

lemma builtTable_small:
  assumes "4 * (w * w + h * h) < 2 ^ 63"
  shows "builtTable w h = distanceTable w h"
  unfolding builtTable_def distanceTable_def
proof (intro map_cong refl)
  fix i j assume "i \<in> set (loopRange (2 * w + 1))" "j \<in> set (loopRange (2 * h + 1))"
  then have "0 \<le> i" "i \<le> 2 * w" "0 \<le> j" "j \<le> 2 * h" by (auto simp: loopRange_def)
  then show "tableEntry i j = i * i + j * j" using assms by (rule tableEntry_small)
qed

lemma foldE_snoc:
  "foldE f (xs @ [x]) s = (case foldE f xs s of Inl e \<Rightarrow> Inl e | Inr s' \<Rightarrow> f x s')"
  by (simp add: foldE_append split: sum.splits)

lemma initDistances_cells:
  assumes "0 \<le> i" "nat i < length (distances v)" "n \<le> length (distances v ! nat i)"
  shows "foldE (initDistancesCell i) (map int [0..<n]) v =
     Inr (v\<lparr>distances := (distances v)[nat i :=
            map (\<lambda>j. tableEntry i (int j)) [0..<n] @ drop n (distances v ! nat i)]\<rparr>)"
  using assms(3)
proof (induction n)
  case 0
  then show ?case by simp
next
  case (Suc n)
  let ?row = "distances v ! nat i"
  let ?f = "\<lambda>j. tableEntry i (int j)"
  have n: "n < length ?row" using Suc.prems by simp
  have len: "length (map ?f [0..<n] @ drop n ?row) = length ?row" using n by simp
  have upd: "(map ?f [0..<n] @ drop n ?row)[n := ?f n] = map ?f [0..<Suc n] @ drop (Suc n) ?row"
  proof -
    have "drop n ?row = ?row ! n # drop (Suc n) ?row" using n by (simp add: Cons_nth_drop_Suc)
    then have "(map ?f [0..<n] @ drop n ?row)[n := ?f n] = map ?f [0..<n] @ ?f n # drop (Suc n) ?row"
      using list_update_length [of "map ?f [0..<n]" "?row ! n" "drop (Suc n) ?row" "?f n"] by simp
    then show ?thesis by simp
  qed
  have "foldE (initDistancesCell i) (map int [0..<Suc n]) v =
      initDistancesCell i (int n) (v\<lparr>distances := (distances v)[nat i := map ?f [0..<n] @ drop n ?row]\<rparr>)"
    using Suc.IH n by (simp add: foldE_snoc)
  also have "\<dots> = Inr (v\<lparr>distances := (distances v)[nat i := map ?f [0..<Suc n] @ drop (Suc n) ?row]\<rparr>)"
    using assms(1,2) n len upd
    by (simp add: initDistancesCell_def store2_def index_def store_def tableEntry_def del: upt_Suc)
  finally show ?case .
qed

lemma initDistancesColumn_eq:
  assumes "0 \<le> i" "nat i < length (distances v)" "0 \<le> height v" "2 * height v + 1 < 2 ^ 63"
  shows "initDistancesColumn i v =
     Inr (v\<lparr>distances := (distances v)[nat i :=
            map (\<lambda>j. tableEntry i (int j)) [0..<nat (2 * height v + 1)]]\<rparr>)"
proof -
  let ?c = "replicate (nat (2 * height v + 1)) (0::int)"
  let ?v1 = "v\<lparr>distances := (distances v)[nat i := ?c]\<rparr>"
  have w: "wrap64 (2 * height v) = 2 * height v" "wrap64 (2 * height v + 1) = 2 * height v + 1"
    using assms(3,4) by (simp_all add: wrap64_id)
  have "initDistancesColumn i v = foldE (initDistancesCell i) (map int [0..<nat (2 * height v + 1)]) ?v1"
    using assms by (simp add: initDistancesColumn_def w make_def store_def loopRange_def)
  also have "\<dots> = Inr (?v1\<lparr>distances := (distances ?v1)[nat i :=
            map (\<lambda>j. tableEntry i (int j)) [0..<nat (2 * height v + 1)]
              @ drop (nat (2 * height v + 1)) (distances ?v1 ! nat i)]\<rparr>)"
    by (rule initDistances_cells) (use assms in simp_all)
  finally show ?thesis using assms by simp
qed

lemma initDistances_columns:
  assumes "0 \<le> height v" "2 * height v + 1 < 2 ^ 63" "n \<le> length (distances v)"
  shows "foldE initDistancesColumn (map int [0..<n]) v =
     Inr (v\<lparr>distances :=
            map (\<lambda>i. map (\<lambda>j. tableEntry (int i) (int j)) [0..<nat (2 * height v + 1)]) [0..<n]
              @ drop n (distances v)\<rparr>)"
  using assms(3)
proof (induction n)
  case 0
  then show ?case by simp
next
  case (Suc n)
  let ?g = "\<lambda>i. map (\<lambda>j. tableEntry (int i) (int j)) [0..<nat (2 * height v + 1)]"
  let ?ds = "distances v"
  let ?vn = "v\<lparr>distances := map ?g [0..<n] @ drop n ?ds\<rparr>"
  have n: "n < length ?ds" using Suc.prems by simp
  have upd: "(map ?g [0..<n] @ drop n ?ds)[n := ?g n] = map ?g [0..<Suc n] @ drop (Suc n) ?ds"
  proof -
    have "drop n ?ds = ?ds ! n # drop (Suc n) ?ds" using n by (simp add: Cons_nth_drop_Suc)
    then have "(map ?g [0..<n] @ drop n ?ds)[n := ?g n] = map ?g [0..<n] @ ?g n # drop (Suc n) ?ds"
      using list_update_length [of "map ?g [0..<n]" "?ds ! n" "drop (Suc n) ?ds" "?g n"] by simp
    then show ?thesis by simp
  qed
  have "foldE initDistancesColumn (map int [0..<Suc n]) v = initDistancesColumn (int n) ?vn"
    using Suc.IH n by (simp add: foldE_snoc)
  also have "\<dots> = Inr (?vn\<lparr>distances := (distances ?vn)[nat (int n) := ?g n]\<rparr>)"
    by (subst initDistancesColumn_eq) (use n assms(1,2) in simp_all)
  finally show ?case using upd by (simp del: upt_Suc)
qed

lemma initDistances_eq:
  assumes "0 \<le> height v" "2 * height v + 1 < 2 ^ 63" "0 \<le> width v" "2 * width v + 1 < 2 ^ 63"
    and "length (distances v) = nat (2 * width v + 1)"
  shows "initDistances v = Inr (v\<lparr>distances := builtTable (width v) (height v)\<rparr>)"
proof -
  have w: "wrap64 (2 * width v) = 2 * width v" using assms(3,4) by (simp add: wrap64_id)
  have "initDistances v = Inr (v\<lparr>distances :=
      map (\<lambda>i. map (\<lambda>j. tableEntry (int i) (int j)) [0..<nat (2 * height v + 1)])
        [0..<nat (2 * width v + 1)] @ drop (nat (2 * width v + 1)) (distances v)\<rparr>)"
    unfolding initDistances_def loopRange_def w
    by (rule initDistances_columns) (use assms in simp_all)
  then show ?thesis using assms(5)
    by (simp add: builtTable_def loopRange_def comp_def)
qed

text \<open>Whatever it stores, \<open>initDistances\<close> touches nothing but the table.\<close>

definition sameButDistances :: "Voronoi \<Rightarrow> Voronoi \<Rightarrow> bool" where
  "sameButDistances v v' =
     (width v' = width v \<and> height v' = height v \<and> numSeeds v' = numSeeds v \<and>
      seeds v' = seeds v \<and> activeSeeds v' = activeSeeds v \<and> radius v' = radius v \<and>
      diagram v' = diagram v)"

lemma initDistancesCell_frame: "initDistancesCell i j v = Inr v' \<Longrightarrow> sameButDistances v v'"
  by (auto simp: initDistancesCell_def sameButDistances_def split: sum.splits)

lemma initDistancesColumn_frame:
  assumes "initDistancesColumn i v = Inr v'"
  shows "sameButDistances v v'"
proof -
  from assms obtain ds where
    f: "foldE (initDistancesCell i) (loopRange (wrap64 (2 * height v) + 1)) (v\<lparr>distances := ds\<rparr>) = Inr v'"
    by (auto simp: initDistancesColumn_def split: sum.splits)
  show ?thesis
    by (rule foldE_invariant [OF f, where P = "\<lambda>t. sameButDistances v t"])
       (auto simp: sameButDistances_def dest!: initDistancesCell_frame)
qed

lemma initDistances_frame:
  assumes "initDistances v = Inr v'"
  shows "sameButDistances v v'"
  by (rule foldE_invariant [OF assms [unfolded initDistances_def], where P = "\<lambda>t. sameButDistances v t"])
     (auto simp: sameButDistances_def dest!: initDistancesColumn_frame)

lemma foldE_fixpoint:
  "(\<And>x. x \<in> set xs \<Longrightarrow> f x s = Inr s) \<Longrightarrow> foldE f xs s = Inr s"
  by (induction xs) simp_all

lemma initDiagramColumn_eq:
  assumes "0 \<le> i" "nat i < length (diagram v)" "0 \<le> height v"
  shows "initDiagramColumn i v =
     Inr (v\<lparr>diagram := (diagram v)[nat i := replicate (nat (height v)) None]\<rparr>)"
proof -
  let ?v1 = "v\<lparr>diagram := (diagram v)[nat i := replicate (nat (height v)) None]\<rparr>"
  have cell: "initDiagramCell i j ?v1 = Inr ?v1" if "j \<in> set (loopRange (height v))" for j
  proof -
    from that have j: "0 \<le> j" "nat j < nat (height v)" by (auto simp: loopRange_def)
    have "(diagram ?v1 ! nat i)[nat j := None] = diagram ?v1 ! nat i"
      using assms j by (simp add: list_update_same_conv)
    then show ?thesis using assms j
      by (simp add: initDiagramCell_def store2_def index_def store_def)
  qed
  have "i < int (length (diagram v))" using assms by linarith
  then have "initDiagramColumn i v = foldE (initDiagramCell i) (loopRange (height v)) ?v1"
    using assms by (simp add: initDiagramColumn_def make_def store_def)
  also have "\<dots> = Inr ?v1" using cell by (rule foldE_fixpoint)
  finally show ?thesis .
qed

lemma initDiagram_columns:
  assumes "0 \<le> height v" "n \<le> length (diagram v)"
  shows "foldE initDiagramColumn (map int [0..<n]) v =
     Inr (v\<lparr>diagram := replicate n (replicate (nat (height v)) None) @ drop n (diagram v)\<rparr>)"
  using assms(2)
proof (induction n)
  case 0
  then show ?case by simp
next
  case (Suc n)
  let ?c = "replicate (nat (height v)) (None :: Point option)"
  let ?dg = "diagram v"
  let ?vn = "v\<lparr>diagram := replicate n ?c @ drop n ?dg\<rparr>"
  have n: "n < length ?dg" using Suc.prems by simp
  have upd: "(replicate n ?c @ drop n ?dg)[n := ?c] = replicate (Suc n) ?c @ drop (Suc n) ?dg"
  proof -
    have "drop n ?dg = ?dg ! n # drop (Suc n) ?dg" using n by (simp add: Cons_nth_drop_Suc)
    then have "(replicate n ?c @ drop n ?dg)[n := ?c] = replicate n ?c @ ?c # drop (Suc n) ?dg"
      using list_update_length [of "replicate n ?c" "?dg ! n" "drop (Suc n) ?dg" ?c] by simp
    then show ?thesis by (simp add: replicate_app_Cons_same)
  qed
  have "foldE initDiagramColumn (map int [0..<Suc n]) v = initDiagramColumn (int n) ?vn"
    using Suc.IH n by (simp add: foldE_snoc)
  also have "\<dots> = Inr (?vn\<lparr>diagram := (diagram ?vn)[nat (int n) := ?c]\<rparr>)"
    by (subst initDiagramColumn_eq) (use n assms(1) in simp_all)
  finally show ?case using upd by (simp del: replicate_Suc)
qed

lemma initDiagram_eq:
  assumes "0 \<le> height v" "length (diagram v) = nat (width v)"
  shows "initDiagram v =
     Inr (v\<lparr>diagram := replicate (nat (width v)) (replicate (nat (height v)) None)\<rparr>)"
proof -
  have "initDiagram v = Inr (v\<lparr>diagram :=
      replicate (nat (width v)) (replicate (nat (height v)) None) @ drop (nat (width v)) (diagram v)\<rparr>)"
    unfolding initDiagram_def loopRange_def
    by (rule initDiagram_columns) (use assms in simp_all)
  then show ?thesis using assms(2) by simp
qed

lemma cellAt_empty_diagram:
  "cellAt (v\<lparr>diagram := replicate m (replicate n None)\<rparr>) x y = None"
  by (auto simp: cellAt_def index2_def index_def split: sum.splits)

lemma validGrid_empty_diagram:
  "validGrid (v\<lparr>diagram := replicate (nat (width v)) (replicate (nat (height v)) None)\<rparr>)"
  by (subst validGrid_iff) (simp add: cellAt_empty_diagram)

text \<open>The seeds sit on the grid, on assigned cells, and nothing else is assigned yet.\<close>

definition seedsPlaced :: "Voronoi \<Rightarrow> bool" where
  "seedsPlaced v =
     ((\<forall>s \<in> set (seeds v). inBounds v (X s) (Y s) \<and> cellAt v (X s) (Y s) \<noteq> None \<and> Color s \<noteq> None) \<and>
      (\<forall>x y p. cellAt v x y = Some p \<longrightarrow> p \<in> set (seeds v)))"

definition newSeed :: "(nat \<Rightarrow> int) \<Rightarrow> nat \<Rightarrow> Voronoi \<Rightarrow> Point" where
  "newSeed rnd i v =
     \<lparr>X = rnd (6 * i) mod width v, Y = rnd (6 * i + 1) mod height v, Distance = Some 0,
      Color = Some \<lparr>R = uint8 (rnd (6 * i + 2) mod 256), G = uint8 (rnd (6 * i + 3) mod 256),
                    B = uint8 (rnd (6 * i + 4) mod 256), A = uint8 (rnd (6 * i + 5) mod 256)\<rparr>\<rparr>"

lemma newSeed_inBounds:
  "0 < width v \<Longrightarrow> 0 < height v \<Longrightarrow> inBounds v (X (newSeed rnd i v)) (Y (newSeed rnd i v))"
  by (simp add: newSeed_def inBounds_def)

lemma initSeedsStep_eq:
  assumes "validGrid v" "0 < width v" "0 < height v"
  shows "initSeedsStep rnd i v =
     Inr (setCell (v\<lparr>seeds := seeds v @ [newSeed rnd i v]\<rparr>)
            (X (newSeed rnd i v)) (Y (newSeed rnd i v)) (Some (newSeed rnd i v)))"
proof -
  let ?v1 = "v\<lparr>seeds := seeds v @ [newSeed rnd i v]\<rparr>"
  have v1: "validGrid ?v1" using assms(1) by (simp add: validGrid_def)
  have ib: "inBounds ?v1 (X (newSeed rnd i v)) (Y (newSeed rnd i v))"
    using newSeed_inBounds [OF assms(2,3)] by (simp add: inBounds_def)
  have "store2 (diagram ?v1) (X (newSeed rnd i v)) (Y (newSeed rnd i v)) (Some (newSeed rnd i v)) =
      Inr (diagram (setCell ?v1 (X (newSeed rnd i v)) (Y (newSeed rnd i v)) (Some (newSeed rnd i v))))"
    by (rule validGrid_store2 [OF v1 ib])
  then show ?thesis using assms(2,3)
    by (simp add: initSeedsStep_def Intn_def Let_def newSeed_def setCell_def)
qed

lemma initSeedsStep_placed:
  assumes "validGrid v" "0 < width v" "0 < height v" "seedsPlaced v"
  shows "\<exists>v'. initSeedsStep rnd i v = Inr v' \<and> validGrid v' \<and> seedsPlaced v' \<and>
     width v' = width v \<and> height v' = height v \<and> distances v' = distances v \<and>
     numSeeds v' = numSeeds v \<and> length (seeds v') = Suc (length (seeds v))"
proof -
  let ?s = "newSeed rnd i v"
  let ?v1 = "v\<lparr>seeds := seeds v @ [?s]\<rparr>"
  let ?v' = "setCell ?v1 (X ?s) (Y ?s) (Some ?s)"
  have v1: "validGrid ?v1" using assms(1) by (simp add: validGrid_def)
  have ib: "inBounds ?v1 (X ?s) (Y ?s)"
    using newSeed_inBounds [OF assms(2,3)] by (simp add: inBounds_def)
  have c1: "cellAt ?v1 x y = cellAt v x y" for x y by (simp add: cellAt_def)
  have cell: "cellAt ?v' x y = (if x = X ?s \<and> y = Y ?s then Some ?s else cellAt v x y)" for x y
    using cellAt_setCell [OF v1 ib] c1 by simp
  have valid: "validGrid ?v'"
    by (rule validGrid_setCell [OF v1 ib]) (simp add: newSeed_def)
  have "seedsPlaced ?v'"
    unfolding seedsPlaced_def
  proof (intro conjI ballI allI impI)
    fix s assume "s \<in> set (seeds ?v')"
    then have s: "s = ?s \<or> s \<in> set (seeds v)" by auto
    show "inBounds ?v' (X s) (Y s)"
      using s ib assms(4) by (auto simp: seedsPlaced_def inBounds_def)
    show "cellAt ?v' (X s) (Y s) \<noteq> None"
      using s assms(4) by (auto simp: cell seedsPlaced_def)
    show "Color s \<noteq> None"
      using s assms(4) by (auto simp: seedsPlaced_def newSeed_def)
  next
    fix x y p assume "cellAt ?v' x y = Some p"
    then show "p \<in> set (seeds ?v')"
      using assms(4) by (auto simp: cell seedsPlaced_def split: if_splits)
  qed
  then show ?thesis using valid by (simp add: initSeedsStep_eq [OF assms(1-3)])
qed

lemma initSeeds_placed:
  assumes "validGrid v" "0 < width v" "0 < height v" "\<forall>x y. cellAt v x y = None"
  shows "\<exists>v'. initSeeds rnd v = Inr v' \<and> validGrid v' \<and> seedsPlaced v' \<and>
     width v' = width v \<and> height v' = height v \<and> distances v' = distances v \<and>
     numSeeds v' = numSeeds v \<and> length (seeds v') = nat (numSeeds v)"
proof -
  let ?v0 = "v\<lparr>seeds := []\<rparr>"
  define P where "P n t \<longleftrightarrow> validGrid t \<and> seedsPlaced t \<and>
     width t = width v \<and> height t = height v \<and> distances t = distances v \<and>
     numSeeds t = numSeeds v \<and> length (seeds t) = n" for n t
  have c0: "cellAt ?v0 x y = cellAt v x y" for x y by (simp add: cellAt_def)
  have p0: "P 0 ?v0"
    using assms by (simp add: P_def validGrid_def seedsPlaced_def c0)
  have "\<exists>v'. foldE (initSeedsStep rnd) [0..<n] ?v0 = Inr v' \<and> P n v'" for n
  proof (induction n)
    case 0
    then show ?case using p0 by simp
  next
    case (Suc n)
    then obtain t where t: "foldE (initSeedsStep rnd) [0..<n] ?v0 = Inr t" "P n t" by blast
    have "\<exists>v'. initSeedsStep rnd n t = Inr v' \<and> validGrid v' \<and> seedsPlaced v' \<and>
       width v' = width t \<and> height v' = height t \<and> distances v' = distances t \<and>
       numSeeds v' = numSeeds t \<and> length (seeds v') = Suc (length (seeds t))"
      by (rule initSeedsStep_placed) (use t(2) assms(2,3) in \<open>simp_all add: P_def\<close>)
    then show ?case using t by (auto simp: foldE_snoc P_def)
  qed
  then show ?thesis by (simp add: initSeeds_def P_def)
qed

lemma NewVoronoi_eq:
  assumes "0 \<le> w" "2 * w + 1 < 2 ^ 63"
  shows "NewVoronoi w h n =
     (if n > wrap64 (w * h) then Inl ConfigurationError
      else Inr \<lparr>width = w, height = h, numSeeds = n, seeds = [], activeSeeds = [],
                diagram = replicate (nat w) [], radius = 0,
                distances = replicate (nat (2 * w + 1)) []\<rparr>)"
proof -
  have "wrap64 (2 * w) = 2 * w" "wrap64 (2 * w + 1) = 2 * w + 1"
    using assms by (simp_all add: wrap64_id)
  then show ?thesis using assms by (simp add: NewVoronoi_def make_def)
qed

lemma NewVoronoi_Inr:
  assumes "NewVoronoi w h n = Inr v"
  shows "width v = w \<and> height v = h \<and> numSeeds v = n \<and> diagram v = replicate (nat w) []"
  using assms by (auto simp: NewVoronoi_def make_def split: if_splits)

text \<open>What a successful \<open>Init\<close> leaves, whatever the table holds.\<close>

lemma Init_result_valid:
  assumes "0 < width v" "0 < height v" "length (diagram v) = nat (width v)"
    and "Init rnd v = Inr v'"
  shows "validGrid v' \<and> seedsPlaced v' \<and>
     width v' = width v \<and> height v' = height v \<and> numSeeds v' = numSeeds v \<and> radius v' = 0 \<and>
     activeSeeds v' = seeds v' \<and> length (seeds v') = nat (numSeeds v)"
proof -
  from assms(4) obtain v1 where d1: "initDistances v = Inr v1"
    by (auto simp: Init_def split: sum.splits)
  have f1: "sameButDistances v v1" by (rule initDistances_frame [OF d1])
  let ?v2 = "v1\<lparr>diagram := replicate (nat (width v1)) (replicate (nat (height v1)) None)\<rparr>"
  have d2: "initDiagram v1 = Inr ?v2"
    by (rule initDiagram_eq) (use assms f1 in \<open>simp_all add: sameButDistances_def\<close>)
  have v2: "validGrid ?v2" by (rule validGrid_empty_diagram)
  have e2: "\<forall>x y. cellAt ?v2 x y = None" by (simp add: cellAt_empty_diagram)
  have "\<exists>v'. initSeeds rnd ?v2 = Inr v' \<and> validGrid v' \<and> seedsPlaced v' \<and>
     width v' = width ?v2 \<and> height v' = height ?v2 \<and> distances v' = distances ?v2 \<and>
     numSeeds v' = numSeeds ?v2 \<and> length (seeds v') = nat (numSeeds ?v2)"
    by (rule initSeeds_placed [OF v2 _ _ e2])
       (use assms f1 in \<open>simp_all add: sameButDistances_def\<close>)
  then obtain v3 where v3: "initSeeds rnd ?v2 = Inr v3" "validGrid v3" "seedsPlaced v3"
    "width v3 = width v" "height v3 = height v"
    "numSeeds v3 = numSeeds v" "length (seeds v3) = nat (numSeeds v)"
    using f1 by (auto simp: sameButDistances_def)
  have v': "v' = initTessellation v3"
    using assms(4) d1 d2 v3(1) by (simp add: Init_def)
  have c: "cellAt (initTessellation v3) x y = cellAt v3 x y" for x y
    by (simp add: cellAt_def initTessellation_def)
  have "validGrid (initTessellation v3)"
    using v3(2) by (simp add: validGrid_def initTessellation_def)
  moreover have "seedsPlaced (initTessellation v3)"
    using v3(3) unfolding seedsPlaced_def c by (simp add: initTessellation_def inBounds_def)
  ultimately show ?thesis
    unfolding v' using v3 by (simp add: initTessellation_def)
qed

text \<open>With dimensions whose doubles fit an \<open>int\<close>, \<open>Init\<close> succeeds and stores the table.\<close>

lemma Init_succeeds:
  assumes "0 < width v" "0 < height v" "2 * width v + 1 < 2 ^ 63" "2 * height v + 1 < 2 ^ 63"
    and "length (distances v) = nat (2 * width v + 1)" "length (diagram v) = nat (width v)"
  shows "\<exists>v'. Init rnd v = Inr v' \<and> distances v' = builtTable (width v) (height v)"
proof -
  let ?v1 = "v\<lparr>distances := builtTable (width v) (height v)\<rparr>"
  let ?v2 = "?v1\<lparr>diagram := replicate (nat (width ?v1)) (replicate (nat (height ?v1)) None)\<rparr>"
  have d1: "initDistances v = Inr ?v1"
    by (rule initDistances_eq) (use assms in simp_all)
  have d2: "initDiagram ?v1 = Inr ?v2"
    by (rule initDiagram_eq) (use assms in simp_all)
  have v2: "validGrid ?v2" by (rule validGrid_empty_diagram)
  have e2: "\<forall>x y. cellAt ?v2 x y = None" by (simp add: cellAt_empty_diagram)
  have "\<exists>v'. initSeeds rnd ?v2 = Inr v' \<and> validGrid v' \<and> seedsPlaced v' \<and>
     width v' = width ?v2 \<and> height v' = height ?v2 \<and> distances v' = distances ?v2 \<and>
     numSeeds v' = numSeeds ?v2 \<and> length (seeds v') = nat (numSeeds ?v2)"
    by (rule initSeeds_placed [OF v2 _ _ e2]) (use assms in simp_all)
  then obtain v3 where v3: "initSeeds rnd ?v2 = Inr v3"
    "distances v3 = builtTable (width v) (height v)"
    by auto
  show ?thesis using d1 d2 v3 by (simp add: Init_def initTessellation_def)
qed

lemma Initialize_result_valid:
  assumes "0 < w" "0 < h" "Initialize rnd w h n = Inr v"
  shows "validGrid v \<and> seedsPlaced v \<and> width v = w \<and> height v = h \<and> numSeeds v = n \<and>
     radius v = 0 \<and> activeSeeds v = seeds v \<and> length (seeds v) = nat n"
proof -
  from assms(3) obtain v0 where new: "NewVoronoi w h n = Inr v0" and init: "Init rnd v0 = Inr v"
    by (auto simp: Initialize_def split: sum.splits)
  note v0 = NewVoronoi_Inr [OF new]
  have "validGrid v \<and> seedsPlaced v \<and>
     width v = width v0 \<and> height v = height v0 \<and> numSeeds v = numSeeds v0 \<and> radius v = 0 \<and>
     activeSeeds v = seeds v \<and> length (seeds v) = nat (numSeeds v0)"
    by (rule Init_result_valid [OF _ _ _ init]) (use assms(1,2) v0 in simp_all)
  then show ?thesis using v0 by simp
qed


text \<open>While the squares fit an \<open>int\<close>, the stored table is the table of squared distances.\<close>

lemma self_le_square:
  fixes w :: int
  assumes "0 < w"
  shows "w \<le> w * w"
  using mult_left_mono [of 1 w w] assms by simp

lemma doubles_below:
  fixes a b w h k :: int
  assumes "w \<le> a" "h \<le> b" "0 < w" "0 < h" "4 * (a + b) < k"
  shows "2 * w + 1 < k \<and> 2 * h + 1 < k"
  using assms by auto

lemma squares_fit:
  fixes w h :: int
  assumes "0 < w" "0 < h" "4 * (w * w + h * h) < 2 ^ 63"
  shows "2 * w + 1 < 2 ^ 63" "2 * h + 1 < 2 ^ 63"
  using doubles_below [OF self_le_square [OF assms(1)] self_le_square [OF assms(2)] assms]
  by blast+

lemma Initialize_table:
  assumes "0 < w" "0 < h" "4 * (w * w + h * h) < 2 ^ 63" "Initialize rnd w h n = Inr v"
  shows "distances v = distanceTable w h"
proof -
  from assms(4) obtain v0 where new: "NewVoronoi w h n = Inr v0" and init: "Init rnd v0 = Inr v"
    by (auto simp: Initialize_def split: sum.splits)
  note fit = squares_fit [OF assms(1-3)]
  have v0: "v0 = \<lparr>width = w, height = h, numSeeds = n, seeds = [], activeSeeds = [],
                diagram = replicate (nat w) [], radius = 0,
                distances = replicate (nat (2 * w + 1)) []\<rparr>"
    using new assms(1) fit(1) by (simp add: NewVoronoi_eq split: if_splits)
  have "\<exists>v'. Init rnd v0 = Inr v' \<and> distances v' = builtTable (width v0) (height v0)"
    by (rule Init_succeeds) (use assms(1,2) fit v0 in simp_all)
  then have "distances v = builtTable w h" using init v0 by auto
  then show ?thesis using builtTable_small [OF assms(3)] by simp
qed

section \<open>Initialisation\<close>





section \<open>One claim attempt\<close>

lemma reflections_distance:
  "(dx, dy) \<in> set (reflections px py) \<Longrightarrow> dx * dx + dy * dy = px * px + py * py"
  by (auto simp: reflections_def)

text \<open>A small engine state used to run the theorems below: a 2 by 2 grid, one seed at (0,0).\<close>

definition demoSeed :: Point where
  "demoSeed = \<lparr>X = 0, Y = 0, Distance = Some 0, Color = Some \<lparr>R = 1, G = 2, B = 3, A = 4\<rparr>\<rparr>"

definition demoEngine :: Voronoi where
  "demoEngine = \<lparr>width = 2, height = 2, numSeeds = 1, seeds = [demoSeed], activeSeeds = [demoSeed],
     diagram = [[Some demoSeed, None], [None, None]], radius = 0,
     distances = [[0, 1, 4, 9, 16], [1, 2, 5, 10, 17], [4, 5, 8, 13, 20], [9, 10, 13, 18, 25],
                  [16, 17, 20, 25, 32]]\<rparr>"

lemma demoEngine_valid: "validGrid demoEngine"
  by code_simp

lemma demoEngine_table: "distances demoEngine = distanceTable (width demoEngine) (height demoEngine)"
  by code_simp

text \<open>
  Claim C2. In a valid engine state, for a seed and an offset \<open>(dx, dy)\<close> among the eight
  reflections of an octant point \<open>(px, py)\<close> whose distance was read from the table:
  the candidate distance is \<open>dx\<^sup>2 + dy\<^sup>2\<close>; a target outside the grid is rejected
  and nothing changes; an unassigned target is assigned the seed's colour and the candidate
  distance, and the claim succeeds; a target whose stored distance is strictly smaller is
  rejected and nothing changes; otherwise (stored distance equal or greater) the target is
  overwritten with the seed's colour and the candidate distance. A successful claim
  changes no other cell and no other field of the engine.
\<close>

theorem assignPointToSeed_outcomes:
  assumes "validGrid v"
    and "distances v = distanceTable (width v) (height v)"
    and "index2 (distances v) px py = Inr distance"
    and "(dx, dy) \<in> set (reflections px py)"
  shows "distance = dx * dx + dy * dy \<and>
    (\<not> inBounds v (X seed + dx) (Y seed + dy) \<longrightarrow>
        assignPointToSeed v seed distance dx dy = Inr (False, v)) \<and>
    (inBounds v (X seed + dx) (Y seed + dy) \<longrightarrow>
      (case cellAt v (X seed + dx) (Y seed + dy) of
         Some p \<Rightarrow>
           if the (Distance p) < distance
           then assignPointToSeed v seed distance dx dy = Inr (False, v)
           else (\<exists>v'. assignPointToSeed v seed distance dx dy = Inr (True, v') \<and>
                  validGrid v' \<and> sameButDiagram v v' \<and>
                  cellAt v' (X seed + dx) (Y seed + dy) =
                    Some \<lparr>X = X seed + dx, Y = Y seed + dy, Distance = Some distance, Color = Color seed\<rparr> \<and>
                  (\<forall>x y. (x, y) \<noteq> (X seed + dx, Y seed + dy) \<longrightarrow> cellAt v' x y = cellAt v x y))
       | None \<Rightarrow>
           (\<exists>v'. assignPointToSeed v seed distance dx dy = Inr (True, v') \<and>
                  validGrid v' \<and> sameButDiagram v v' \<and>
                  cellAt v' (X seed + dx) (Y seed + dy) =
                    Some \<lparr>X = X seed + dx, Y = Y seed + dy, Distance = Some distance, Color = Color seed\<rparr> \<and>
                  (\<forall>x y. (x, y) \<noteq> (X seed + dx, Y seed + dy) \<longrightarrow> cellAt v' x y = cellAt v x y))))"
proof (intro conjI impI)
  have "distance = px * px + py * py"
    using assms(2,3) by (simp add: index2_distanceTable split: if_splits)
  then show "distance = dx * dx + dy * dy"
    using reflections_distance [OF assms(4)] by simp
next
  assume "\<not> inBounds v (X seed + dx) (Y seed + dy)"
  then show "assignPointToSeed v seed distance dx dy = Inr (False, v)"
    by (rule assignPointToSeed_outside)
next
  let ?tx = "X seed + dx" and ?ty = "Y seed + dy"
  let ?v' = "setCell v ?tx ?ty (Some (claimed seed distance ?tx ?ty))"
  assume ib: "inBounds v ?tx ?ty"
  have valid: "validGrid ?v'"
    by (rule validGrid_setCell [OF assms(1) ib]) (simp add: claimed_def)
  have frame: "sameButDiagram v ?v'" by (simp add: sameButDiagram_def)
  have cell: "cellAt ?v' ?tx ?ty =
      Some \<lparr>X = ?tx, Y = ?ty, Distance = Some distance, Color = Color seed\<rparr>"
    by (simp add: cellAt_setCell [OF assms(1) ib] claimed_def)
  have others: "\<forall>x y. (x, y) \<noteq> (?tx, ?ty) \<longrightarrow> cellAt ?v' x y = cellAt v x y"
    by (simp add: cellAt_setCell [OF assms(1) ib])
  show "case cellAt v ?tx ?ty of
         Some p \<Rightarrow>
           if the (Distance p) < distance
           then assignPointToSeed v seed distance dx dy = Inr (False, v)
           else (\<exists>v'. assignPointToSeed v seed distance dx dy = Inr (True, v') \<and>
                  validGrid v' \<and> sameButDiagram v v' \<and>
                  cellAt v' ?tx ?ty =
                    Some \<lparr>X = ?tx, Y = ?ty, Distance = Some distance, Color = Color seed\<rparr> \<and>
                  (\<forall>x y. (x, y) \<noteq> (?tx, ?ty) \<longrightarrow> cellAt v' x y = cellAt v x y))
       | None \<Rightarrow>
           (\<exists>v'. assignPointToSeed v seed distance dx dy = Inr (True, v') \<and>
                  validGrid v' \<and> sameButDiagram v v' \<and>
                  cellAt v' ?tx ?ty =
                    Some \<lparr>X = ?tx, Y = ?ty, Distance = Some distance, Color = Color seed\<rparr> \<and>
                  (\<forall>x y. (x, y) \<noteq> (?tx, ?ty) \<longrightarrow> cellAt v' x y = cellAt v x y))"
    using valid frame cell others
    by (simp add: assignPointToSeed_inside [OF assms(1) ib] split: option.splits)
qed

theorem assignPointToSeed_outcomes_witness:
  "validGrid demoEngine \<and>
   distances demoEngine = distanceTable (width demoEngine) (height demoEngine) \<and>
   index2 (distances demoEngine) 0 1 = Inr 1 \<and>
   (1, 0) \<in> set (reflections 0 1) \<and>
   (\<exists>v'. assignPointToSeed demoEngine demoSeed 1 1 0 = Inr (True, v') \<and>
      cellAt v' 1 0 = Some \<lparr>X = 1, Y = 0, Distance = Some 1, Color = Color demoSeed\<rparr>) \<and>
   assignPointToSeed demoEngine demoSeed 1 (- 1) 0 = Inr (False, demoEngine)"
proof -
  have h3: "index2 (distances demoEngine) 0 1 = Inr 1" by code_simp
  have h4: "(1, 0) \<in> set (reflections 0 1)" "(- 1, 0) \<in> set (reflections 0 1)"
    by (simp_all add: reflections_def)
  have c: "cellAt demoEngine 1 0 = None" by code_simp
  have ib: "inBounds demoEngine (X demoSeed + 1) (Y demoSeed + 0)"
    "\<not> inBounds demoEngine (X demoSeed + - 1) (Y demoSeed + 0)"
    by (simp_all add: inBounds_def demoEngine_def demoSeed_def)
  have s: "X demoSeed = 0" "Y demoSeed = 0" by (simp_all add: demoSeed_def)
  show ?thesis
    using assignPointToSeed_outcomes [OF demoEngine_valid demoEngine_table h3 h4(1), of demoSeed]
      assignPointToSeed_outcomes [OF demoEngine_valid demoEngine_table h3 h4(2), of demoSeed]
      demoEngine_valid demoEngine_table h3 h4 c ib
    by (auto simp: s)
qed

section \<open>What claims do to the grid\<close>

definition storedDistance :: "Voronoi \<Rightarrow> int \<Rightarrow> int \<Rightarrow> int option" where
  "storedDistance v x y = (case cellAt v x y of None \<Rightarrow> None | Some p \<Rightarrow> Distance p)"

text \<open>Assigned cells stay assigned, at a distance that has not grown.\<close>

definition keepsCells :: "Voronoi \<Rightarrow> Voronoi \<Rightarrow> bool" where
  "keepsCells v v' =
     (\<forall>x y d. storedDistance v x y = Some d \<longrightarrow>
        (\<exists>d'. storedDistance v' x y = Some d' \<and> d' \<le> d))"

lemma keepsCells_refl [simp]: "keepsCells v v"
  by (simp add: keepsCells_def)

lemma keepsCells_trans: "keepsCells a b \<Longrightarrow> keepsCells b c \<Longrightarrow> keepsCells a c"
  unfolding keepsCells_def by (meson order_trans)

lemma validGrid_stored:
  "validGrid v \<Longrightarrow> cellAt v x y = Some p \<Longrightarrow> \<exists>d. storedDistance v x y = Some d"
  by (auto simp: validGrid_iff storedDistance_def)

lemma validGrid_assigned_iff:
  "validGrid v \<Longrightarrow> storedDistance v x y \<noteq> None \<longleftrightarrow> cellAt v x y \<noteq> None"
  by (auto simp: validGrid_iff storedDistance_def split: option.splits)

lemma keepsCells_assigned:
  assumes "keepsCells v v'" "validGrid v" "cellAt v x y \<noteq> None"
  shows "cellAt v' x y \<noteq> None"
proof -
  from assms(2,3) obtain d where "storedDistance v x y = Some d"
    using validGrid_stored by fastforce
  then obtain d' where "storedDistance v' x y = Some d'"
    using assms(1) unfolding keepsCells_def by blast
  then show ?thesis by (auto simp: storedDistance_def split: option.splits)
qed

lemma cellAt_inBounds:
  "validGrid v \<Longrightarrow> cellAt v x y \<noteq> None \<Longrightarrow> inBounds v x y"
proof -
  assume v: "validGrid v" and "cellAt v x y \<noteq> None"
  then obtain p where "cellAt v x y = Some p" by auto
  then have b: "0 \<le> x" "x < int (length (diagram v))" "0 \<le> y" "y < int (length (diagram v ! nat x))"
    by (auto simp: cellAt_Some_iff)
  then have "nat x < length (diagram v)" by linarith
  then have "length (diagram v ! nat x) = nat (height v)" using v by (auto simp: validGrid_iff)
  then show ?thesis using b v by (auto simp: inBounds_def validGrid_iff split: if_splits)
qed

text \<open>
  The effect of a run of claims by one seed over the offsets \<open>T\<close>: the grid stays valid,
  assigned cells stay assigned at distances that do not grow, every target on the grid is
  assigned afterwards, and a cell that changed was claimed by the seed (the flag is set,
  its offset is in \<open>T\<close>, it carries the seed's colour).
\<close>

definition claimEffect ::
    "Point \<Rightarrow> (int \<times> int) set \<Rightarrow> bool \<times> Voronoi \<Rightarrow> bool \<times> Voronoi \<Rightarrow> bool" where
  "claimEffect seed T st st' =
     (validGrid (snd st') \<and> sameButDiagram (snd st) (snd st') \<and> keepsCells (snd st) (snd st') \<and>
      (fst st \<longrightarrow> fst st') \<and>
      (\<forall>(dx, dy) \<in> T. inBounds (snd st) (X seed + dx) (Y seed + dy) \<longrightarrow>
          cellAt (snd st') (X seed + dx) (Y seed + dy) \<noteq> None) \<and>
      (\<forall>x y p. cellAt (snd st') x y = Some p \<longrightarrow>
          cellAt (snd st) x y = Some p \<or>
          (fst st' \<and> (x - X seed, y - Y seed) \<in> T \<and> Color p = Color seed)))"

lemma claimEffect_empty: "validGrid (snd st) \<Longrightarrow> claimEffect seed {} st st"
  by (simp add: claimEffect_def)

lemma inBounds_frame: "sameButDiagram v v' \<Longrightarrow> inBounds v' x y = inBounds v x y"
  by (simp add: sameButDiagram_def inBounds_def)

lemma claimEffect_compose:
  assumes ab: "claimEffect seed T1 a b" and bc: "claimEffect seed T2 b c" and va: "validGrid (snd a)"
  shows "claimEffect seed (T1 \<union> T2) a c"
  unfolding claimEffect_def
proof (intro conjI ballI allI impI)
  show "validGrid (snd c)" using bc by (simp add: claimEffect_def)
  show "sameButDiagram (snd a) (snd c)"
    using ab bc by (auto simp: claimEffect_def intro: sameButDiagram_trans)
  show "keepsCells (snd a) (snd c)"
    using ab bc by (auto simp: claimEffect_def intro: keepsCells_trans)
  show "fst c" if "fst a" using that ab bc by (simp add: claimEffect_def)
next
  fix off assume off: "off \<in> T1 \<union> T2"
  show "case off of (dx, dy) \<Rightarrow> inBounds (snd a) (X seed + dx) (Y seed + dy) \<longrightarrow>
          cellAt (snd c) (X seed + dx) (Y seed + dy) \<noteq> None"
  proof (cases off)
    case (Pair dx dy)
    have fr: "sameButDiagram (snd a) (snd b)" using ab by (simp add: claimEffect_def)
    have vb: "validGrid (snd b)" using ab by (simp add: claimEffect_def)
    have kc: "keepsCells (snd b) (snd c)" using bc by (simp add: claimEffect_def)
    {
      assume ib: "inBounds (snd a) (X seed + dx) (Y seed + dy)"
      have "cellAt (snd c) (X seed + dx) (Y seed + dy) \<noteq> None"
      proof (cases "off \<in> T1")
        case True
        then have "cellAt (snd b) (X seed + dx) (Y seed + dy) \<noteq> None"
          using ab ib Pair by (auto simp: claimEffect_def)
        then show ?thesis using keepsCells_assigned [OF kc vb] by blast
      next
        case False
        then have "off \<in> T2" using off by simp
        moreover have "inBounds (snd b) (X seed + dx) (Y seed + dy)"
          using ib inBounds_frame [OF fr] by simp
        ultimately show ?thesis using bc Pair by (auto simp: claimEffect_def)
      qed
    }
    then show ?thesis using Pair by simp
  qed
next
  fix x y p assume c: "cellAt (snd c) x y = Some p"
  then consider "cellAt (snd b) x y = Some p"
    | "fst c \<and> (x - X seed, y - Y seed) \<in> T2 \<and> Color p = Color seed"
    using bc unfolding claimEffect_def by blast
  then show "cellAt (snd a) x y = Some p \<or>
      (fst c \<and> (x - X seed, y - Y seed) \<in> T1 \<union> T2 \<and> Color p = Color seed)"
  proof cases
    case 1
    then consider "cellAt (snd a) x y = Some p"
      | "fst b \<and> (x - X seed, y - Y seed) \<in> T1 \<and> Color p = Color seed"
      using ab unfolding claimEffect_def by blast
    then show ?thesis
    proof cases
      case 1
      then show ?thesis by simp
    next
      case 2
      moreover have "fst b \<longrightarrow> fst c" using bc by (simp add: claimEffect_def)
      ultimately show ?thesis by simp
    qed
  next
    case 2
    then show ?thesis by simp
  qed
qed

lemma foldE_claimEffect:
  assumes "foldE f xs st = Inr st'" and "validGrid (snd st)"
    and "\<And>x t t'. x \<in> set xs \<Longrightarrow> validGrid (snd t) \<Longrightarrow> f x t = Inr t' \<Longrightarrow> claimEffect seed (T x) t t'"
  shows "claimEffect seed (\<Union>x \<in> set xs. T x) st st'"
  using assms
proof (induction xs arbitrary: st)
  case Nil
  then show ?case by (simp add: claimEffect_empty)
next
  case (Cons x xs)
  from Cons.prems(1) obtain t where t: "f x st = Inr t" and r: "foldE f xs t = Inr st'"
    by (auto split: sum.splits)
  have e1: "claimEffect seed (T x) st t" using Cons.prems(2,3) t by simp
  then have vt: "validGrid (snd t)" by (simp add: claimEffect_def)
  have e2: "claimEffect seed (\<Union>x \<in> set xs. T x) t st'"
    by (rule Cons.IH [OF r vt]) (use Cons.prems(3) in simp)
  have "claimEffect seed (T x \<union> (\<Union>x \<in> set xs. T x)) st st'"
    by (rule claimEffect_compose [OF e1 e2 Cons.prems(2)])
  then show ?case by simp
qed

lemma storedDistance_setCell:
  assumes "validGrid v" "inBounds v x y"
  shows "storedDistance (setCell v x y (Some p)) x' y' =
     (if x' = x \<and> y' = y then Distance p else storedDistance v x' y')"
  by (simp add: storedDistance_def cellAt_setCell [OF assms])

lemma assignPointToSeed_effect:
  assumes "validGrid v" "assignPointToSeed v seed distance dx dy = Inr (b, v')"
  shows "claimEffect seed {(dx, dy)} (False, v) (b, v')"
proof (cases "inBounds v (X seed + dx) (Y seed + dy)")
  case False
  then have "v' = v" "\<not> b" using assms(2) by (simp_all add: assignPointToSeed_outside)
  then show ?thesis using assms(1) False by (simp add: claimEffect_def)
next
  case True
  let ?tx = "X seed + dx" and ?ty = "Y seed + dy"
  let ?new = "setCell v ?tx ?ty (Some (claimed seed distance ?tx ?ty))"
  have valid: "validGrid ?new"
    by (rule validGrid_setCell [OF assms(1) True]) (simp add: claimed_def)
  show ?thesis
  proof (cases "b")
    case False
    then obtain p where p: "cellAt v ?tx ?ty = Some p" and "v' = v"
      using assms(2) by (auto simp: assignPointToSeed_inside [OF assms(1) True]
          split: option.splits if_splits)
    then show ?thesis using assms(1) False by (simp add: claimEffect_def)
  next
    case b: True
    then have v': "v' = ?new"
      and ok: "\<And>p. cellAt v ?tx ?ty = Some p \<Longrightarrow> \<not> the (Distance p) < distance"
      using assms(2) by (auto simp: assignPointToSeed_inside [OF assms(1) True]
          split: option.splits if_splits)
    have keeps: "keepsCells v ?new"
      unfolding keepsCells_def
    proof (intro allI impI)
      fix x y d assume d: "storedDistance v x y = Some d"
      show "\<exists>d'. storedDistance ?new x y = Some d' \<and> d' \<le> d"
      proof (cases "x = ?tx \<and> y = ?ty")
        case True
        then obtain p where "cellAt v ?tx ?ty = Some p" "Distance p = Some d"
          using d by (auto simp: storedDistance_def split: option.splits)
        then have "distance \<le> d" using ok by fastforce
        then show ?thesis
          using True by (simp add: storedDistance_setCell [OF assms(1) \<open>inBounds v ?tx ?ty\<close>] claimed_def)
      next
        case False
        then show ?thesis
          using d by (auto simp: storedDistance_setCell [OF assms(1) True])
      qed
    qed
    have cells: "\<forall>x y p. cellAt ?new x y = Some p \<longrightarrow> cellAt v x y = Some p \<or>
        (x - X seed, y - Y seed) \<in> {(dx, dy)} \<and> Color p = Color seed"
      by (auto simp: cellAt_setCell [OF assms(1) True] claimed_def split: if_splits)
    have tgt: "cellAt ?new ?tx ?ty \<noteq> None"
      by (simp add: cellAt_setCell [OF assms(1) True])
    show ?thesis
      unfolding claimEffect_def v'
      using valid keeps cells tgt b by (simp add: sameButDiagram_def)
  qed
qed

lemma claimEffect_flag:
  assumes "claimEffect seed T (False, v) (b, v')"
  shows "claimEffect seed T (c, v) (b \<or> c, v')"
  using assms unfolding claimEffect_def by auto

lemma claimStep_effect:
  assumes "validGrid (snd st)" "claimStep seed distance off st = Inr st'"
  shows "claimEffect seed {off} st st'"
proof -
  from assms(2) obtain b v' where a: "assignPointToSeed (snd st) seed distance (fst off) (snd off) = Inr (b, v')"
    and st': "st' = (b \<or> fst st, v')"
    by (auto simp: claimStep_def split: sum.splits)
  have "claimEffect seed {(fst off, snd off)} (False, snd st) (b, v')"
    by (rule assignPointToSeed_effect [OF assms(1) a])
  then have "claimEffect seed {off} (False, snd st) (b, v')" by simp
  then have "claimEffect seed {off} (fst st, snd st) (b \<or> fst st, v')"
    by (rule claimEffect_flag)
  then show ?thesis by (simp add: st')
qed

lemma assignPointsToSeed_effect:
  assumes "validGrid v" "assignPointsToSeed v seed distance dx dy = Inr (b, v')"
  shows "claimEffect seed (set (reflections dx dy)) (False, v) (b, v')"
proof -
  have "claimEffect seed (\<Union>off \<in> set (reflections dx dy). {off}) (False, v) (b, v')"
    by (rule foldE_claimEffect [OF assms(2) [unfolded assignPointsToSeed_def]])
       (use assms(1) in \<open>auto intro: claimStep_effect\<close>)
  then show ?thesis by simp
qed

lemma distanceStep_effect:
  assumes "validGrid (snd st)" "distanceStep seed pt st = Inr st'"
  shows "claimEffect seed (set (reflections (X pt) (Y pt))) st st'"
proof -
  from assms(2) obtain d b v' where
    a: "assignPointsToSeed (snd st) seed d (X pt) (Y pt) = Inr (b, v')"
    and st': "st' = (b \<or> fst st, v')"
    by (auto simp: distanceStep_def split: sum.splits)
  have "claimEffect seed (set (reflections (X pt) (Y pt))) (False, snd st) (b, v')"
    by (rule assignPointsToSeed_effect [OF assms(1) a])
  then have "claimEffect seed (set (reflections (X pt) (Y pt))) (fst st, snd st) (b \<or> fst st, v')"
    by (rule claimEffect_flag)
  then show ?thesis by (simp add: st')
qed

text \<open>All the offsets probed for one seed in a ring.\<close>

definition ringOffsets :: "Point list \<Rightarrow> (int \<times> int) list" where
  "ringOffsets proximityDistances = concat (map (\<lambda>pt. reflections (X pt) (Y pt)) proximityDistances)"

lemma seedRound_effect:
  assumes "validGrid v" "foldE (distanceStep seed) prox (False, v) = Inr (b, v')"
  shows "claimEffect seed (set (ringOffsets prox)) (False, v) (b, v')"
proof -
  have "claimEffect seed (\<Union>pt \<in> set prox. set (reflections (X pt) (Y pt))) (False, v) (b, v')"
    by (rule foldE_claimEffect [OF assms(2)]) (use assms(1) in \<open>auto intro: distanceStep_effect\<close>)
  then show ?thesis by (simp add: ringOffsets_def)
qed

section \<open>Ring geometry\<close>

lemma set_proximityLoop:
  "set (proximityLoop 0 r []) = {offsetPoint k (r - k) | k. 0 \<le> k \<and> k \<le> r - k}"
proof -
  have "set (proximityLoop 0 r []) = (\<lambda>k. offsetPoint (int k) (r - int k)) ` {0..<nat (r div 2 + 1)}"
    by (simp add: proximityLoop_eq)
  also have "\<dots> = {offsetPoint k (r - k) | k. 0 \<le> k \<and> k \<le> r - k}"
  proof (intro set_eqI iffI)
    fix pt assume "pt \<in> (\<lambda>k. offsetPoint (int k) (r - int k)) ` {0..<nat (r div 2 + 1)}"
    then obtain k where k: "k < nat (r div 2 + 1)" "pt = offsetPoint (int k) (r - int k)" by auto
    then have "int k \<le> r - int k" by linarith
    then show "pt \<in> {offsetPoint k (r - k) | k. 0 \<le> k \<and> k \<le> r - k}" using k(2) by auto
  next
    fix pt assume "pt \<in> {offsetPoint k (r - k) | k. 0 \<le> k \<and> k \<le> r - k}"
    then obtain k where k: "0 \<le> k" "k \<le> r - k" "pt = offsetPoint k (r - k)" by auto
    then have "nat k < nat (r div 2 + 1)" by linarith
    then show "pt \<in> (\<lambda>k. offsetPoint (int k) (r - int k)) ` {0..<nat (r div 2 + 1)}"
      using k by (auto simp: image_iff intro!: bexI [of _ "nat k"])
  qed
  finally show ?thesis .
qed

lemma length_proximityLoop: "length (proximityLoop 0 r []) = nat (r div 2 + 1)"
  by (simp add: proximityLoop_eq)

lemma length_ringOffsets: "length (ringOffsets prox) = 8 * length prox"
  by (induction prox) (simp_all add: ringOffsets_def reflections_def)

lemma set_ringOffsets:
  "set (ringOffsets prox) = (\<Union>pt \<in> set prox. set (reflections (X pt) (Y pt)))"
  by (simp add: ringOffsets_def)

lemma offsetPoint_sel [simp]: "X (offsetPoint a b) = a" "Y (offsetPoint a b) = b"
  by (simp_all add: offsetPoint_def)

lemma ringOffsets_member:
  "pt \<in> set prox \<Longrightarrow> off \<in> set (reflections (X pt) (Y pt)) \<Longrightarrow> off \<in> set (ringOffsets prox)"
  by (auto simp: set_ringOffsets)

lemma ringOffsets_diamond:
  "set (ringOffsets (proximityLoop 0 r [])) = {(dx, dy). \<bar>dx\<bar> + \<bar>dy\<bar> = r}"
proof (intro set_eqI iffI)
  fix off assume "off \<in> set (ringOffsets (proximityLoop 0 r []))"
  then obtain k where k: "0 \<le> k" "k \<le> r - k" "off \<in> set (reflections k (r - k))"
    by (auto simp: set_ringOffsets set_proximityLoop)
  then show "off \<in> {(dx, dy). \<bar>dx\<bar> + \<bar>dy\<bar> = r}"
    by (auto simp: reflections_def)
next
  fix off :: "int \<times> int" assume "off \<in> {(dx, dy). \<bar>dx\<bar> + \<bar>dy\<bar> = r}"
  then obtain dx dy where off: "off = (dx, dy)" "\<bar>dx\<bar> + \<bar>dy\<bar> = r" by auto
  show "off \<in> set (ringOffsets (proximityLoop 0 r []))"
  proof (cases "\<bar>dx\<bar> \<le> \<bar>dy\<bar>")
    case True
    have "offsetPoint \<bar>dx\<bar> (r - \<bar>dx\<bar>) \<in> set (proximityLoop 0 r [])"
      using True off(2) by (auto simp: set_proximityLoop)
    moreover have "off \<in> set (reflections \<bar>dx\<bar> (r - \<bar>dx\<bar>))"
      using off by (auto simp: reflections_def abs_if split: if_splits)
    ultimately show ?thesis using ringOffsets_member by fastforce
  next
    case False
    have "offsetPoint \<bar>dy\<bar> (r - \<bar>dy\<bar>) \<in> set (proximityLoop 0 r [])"
      using False off(2) by (auto simp: set_proximityLoop)
    moreover have "off \<in> set (reflections \<bar>dy\<bar> (r - \<bar>dy\<bar>))"
      using off by (auto simp: reflections_def abs_if split: if_splits)
    ultimately show ?thesis using ringOffsets_member by fastforce
  qed
qed

section \<open>The log of claim attempts\<close>

text \<open>
  The calls of \<open>assignPointToSeed\<close> made for one seed in a ring, in the order the loops of
  \<open>Tessellate\<close> and \<open>assignPointsToSeed\<close> make them: each offset with the result of its call.
\<close>

fun reflectionAttempts ::
    "Point \<Rightarrow> int \<Rightarrow> (int \<times> int) list \<Rightarrow> Voronoi \<Rightarrow> error + (((int \<times> int) \<times> bool) list \<times> Voronoi)" where
  "reflectionAttempts seed distance [] v = Inr ([], v)"
| "reflectionAttempts seed distance (off # offs) v =
     (case assignPointToSeed v seed distance (fst off) (snd off) of Inl e \<Rightarrow> Inl e
      | Inr (b, v1) \<Rightarrow>
         (case reflectionAttempts seed distance offs v1 of Inl e \<Rightarrow> Inl e
          | Inr (log, v2) \<Rightarrow> Inr ((off, b) # log, v2)))"

fun seedAttempts ::
    "Point \<Rightarrow> Point list \<Rightarrow> Voronoi \<Rightarrow> error + (((int \<times> int) \<times> bool) list \<times> Voronoi)" where
  "seedAttempts seed [] v = Inr ([], v)"
| "seedAttempts seed (pt # pts) v =
     (case index2 (distances v) (X pt) (Y pt) of Inl e \<Rightarrow> Inl e
      | Inr d \<Rightarrow>
         (case reflectionAttempts seed d (reflections (X pt) (Y pt)) v of Inl e \<Rightarrow> Inl e
          | Inr (log, v1) \<Rightarrow>
             (case seedAttempts seed pts v1 of Inl e \<Rightarrow> Inl e
              | Inr (log', v2) \<Rightarrow> Inr (log @ log', v2))))"

text \<open>The log of a whole ring: each processed seed with the results of its attempts.\<close>

fun ringAttempts ::
    "Point list \<Rightarrow> Point list \<Rightarrow> Voronoi \<Rightarrow> error + ((Point \<times> bool list) list \<times> Voronoi)" where
  "ringAttempts prox [] v = Inr ([], v)"
| "ringAttempts prox (seed # rest) v =
     (case seedAttempts seed prox v of Inl e \<Rightarrow> Inl e
      | Inr (log, v1) \<Rightarrow>
         (case ringAttempts prox rest v1 of Inl e \<Rightarrow> Inl e
          | Inr (logs, v2) \<Rightarrow> Inr ((seed, map snd log) # logs, v2)))"

definition logged :: "bool \<Rightarrow> error + ('a \<times> bool) list \<times> Voronoi \<Rightarrow> error + bool \<times> Voronoi" where
  "logged flag r =
     (case r of Inl e \<Rightarrow> Inl e | Inr (log, v) \<Rightarrow> Inr (True \<in> snd ` set log \<or> flag, v))"

lemma foldE_claimStep_logged:
  "foldE (claimStep seed distance) offs (flag, v) = logged flag (reflectionAttempts seed distance offs v)"
proof (induction offs arbitrary: flag v)
  case Nil
  then show ?case by (simp add: logged_def)
next
  case (Cons off offs)
  show ?case
  proof (cases "assignPointToSeed v seed distance (fst off) (snd off)")
    case (Inl e)
    then show ?thesis by (simp add: claimStep_def logged_def)
  next
    case (Inr r)
    obtain b v1 where r: "r = (b, v1)" by (cases r)
    show ?thesis
      using Inr r Cons.IH [of "b \<or> flag" v1]
      by (auto simp: claimStep_def logged_def split: sum.splits)
  qed
qed

lemma foldE_distanceStep_logged:
  "foldE (distanceStep seed) prox (flag, v) = logged flag (seedAttempts seed prox v)"
proof (induction prox arbitrary: flag v)
  case Nil
  then show ?case by (simp add: logged_def)
next
  case (Cons pt prox)
  show ?case
  proof (cases "index2 (distances v) (X pt) (Y pt)")
    case (Inl e)
    then show ?thesis by (simp add: distanceStep_def logged_def)
  next
    case d: (Inr d)
    show ?thesis
    proof (cases "reflectionAttempts seed d (reflections (X pt) (Y pt)) v")
      case (Inl e)
      then show ?thesis
        using d by (simp add: distanceStep_def assignPointsToSeed_def foldE_claimStep_logged logged_def)
    next
      case (Inr r)
      obtain log v1 where r: "r = (log, v1)" by (cases r)
      have "distanceStep seed pt (flag, v) = Inr ((True \<in> snd ` set log \<or> False) \<or> flag, v1)"
        using d Inr r
        by (simp add: distanceStep_def assignPointsToSeed_def foldE_claimStep_logged logged_def)
      then show ?thesis
        using d Inr r Cons.IH [of "(True \<in> snd ` set log \<or> False) \<or> flag" v1]
        by (auto simp: logged_def split: sum.splits)
    qed
  qed
qed

lemma reflectionAttempts_offsets:
  "reflectionAttempts seed distance offs v = Inr (log, v') \<Longrightarrow> map fst log = offs"
  by (induction offs arbitrary: v log) (auto split: sum.splits)

lemma seedAttempts_offsets:
  "seedAttempts seed prox v = Inr (log, v') \<Longrightarrow> map fst log = ringOffsets prox"
proof (induction prox arbitrary: v log)
  case Nil
  then show ?case by (simp add: ringOffsets_def)
next
  case (Cons pt prox)
  from Cons.prems obtain d l1 v1 l2 where
    a: "reflectionAttempts seed d (reflections (X pt) (Y pt)) v = Inr (l1, v1)"
    and b: "seedAttempts seed prox v1 = Inr (l2, v')" and log: "log = l1 @ l2"
    by (auto split: sum.splits)
  show ?case
    using reflectionAttempts_offsets [OF a] Cons.IH [OF b] log by (simp add: ringOffsets_def)
qed

section \<open>The offsets probed in a ring\<close>

text \<open>The log of a whole ring with its offsets: each processed seed with its attempts.\<close>

fun ringProbes ::
    "Point list \<Rightarrow> Point list \<Rightarrow> Voronoi \<Rightarrow>
       error + ((Point \<times> ((int \<times> int) \<times> bool) list) list \<times> Voronoi)" where
  "ringProbes prox [] v = Inr ([], v)"
| "ringProbes prox (seed # rest) v =
     (case seedAttempts seed prox v of Inl e \<Rightarrow> Inl e
      | Inr (log, v1) \<Rightarrow>
         (case ringProbes prox rest v1 of Inl e \<Rightarrow> Inl e
          | Inr (logs, v2) \<Rightarrow> Inr ((seed, log) # logs, v2)))"

lemma foldE_seedStep_probes:
  "foldE (seedStep prox) ss (still, v) =
     (case ringProbes prox ss v of Inl e \<Rightarrow> Inl e
      | Inr (logs, v') \<Rightarrow>
          Inr (still @ map fst (filter (\<lambda>entry. True \<in> snd ` set (snd entry)) logs), v'))"
proof (induction ss arbitrary: still v)
  case Nil
  then show ?case by simp
next
  case (Cons seed ss)
  show ?case
  proof (cases "seedAttempts seed prox v")
    case (Inl e)
    then show ?thesis by (simp add: seedStep_def foldE_distanceStep_logged logged_def)
  next
    case (Inr r)
    obtain log v1 where r: "r = (log, v1)" by (cases r)
    have s: "seedStep prox seed (still, v) =
        Inr (if True \<in> snd ` set log then still @ [seed] else still, v1)"
      using Inr r by (simp add: seedStep_def foldE_distanceStep_logged logged_def)
    show ?thesis
      using Inr r s Cons.IH [of "if True \<in> snd ` set log then still @ [seed] else still" v1]
      by (auto split: sum.splits)
  qed
qed

lemma ringProbes_seeds:
  "ringProbes prox ss v = Inr (logs, v') \<Longrightarrow> map fst logs = ss"
  by (induction ss arbitrary: v logs) (auto split: sum.splits)

lemma ringProbes_entries:
  "ringProbes prox ss v = Inr (logs, v') \<Longrightarrow> (seed, log) \<in> set logs \<Longrightarrow>
     \<exists>t t'. seedAttempts seed prox t = Inr (log, t')"
proof (induction ss arbitrary: v logs)
  case Nil
  then show ?case by simp
next
  case (Cons s ss)
  from Cons.prems(1) obtain l v1 ls where
    a: "seedAttempts s prox v = Inr (l, v1)" and b: "ringProbes prox ss v1 = Inr (ls, v')"
    and logs: "logs = (s, l) # ls"
    by (auto split: sum.splits)
  show ?case
  proof (cases "(seed, log) = (s, l)")
    case True
    then show ?thesis using a by blast
  next
    case False
    then have "(seed, log) \<in> set ls" using Cons.prems(2) logs by auto
    then show ?thesis by (rule Cons.IH [OF b])
  qed
qed

text \<open>
  Claim C6. Let \<open>getProximityDistances\<close> return the octant points of a ring of radius
  \<open>r \<ge> 1\<close>. A call of \<open>assignPointsToSeed\<close> with the offset \<open>(dx, dy)\<close> is the run of eight
  calls of \<open>assignPointToSeed\<close> with \<open>(dx,dy), (dx,-dy), (dy,dx), (dy,-dx), (-dx,dy),
  (-dx,-dy), (-dy,dx), (-dy,-dx)\<close> (the eight vectors of the claim, in the order of the
  source), and it returns whether one of them succeeded. Processing a seed (the body of the
  loop over the active seeds) is the run of these calls for each octant point in turn, and
  the ring is that run for each active seed in order, all with the same octant points. The
  offsets probed for a seed are therefore the eight reflections of each octant point,
  eight per point, the same list whichever seed is processed and whatever the grid holds,
  and every probed offset has \<open>|dx| + |dy| = r\<close>.
\<close>

theorem ring_offsets_independent_of_seed:
  assumes "getProximityDistances v = (proximityDistances, v1)"
    and "1 \<le> radius v1"
  shows "(\<forall>t seed d dx dy.
            assignPointsToSeed t seed d dx dy =
              (case reflectionAttempts seed d
                      [(dx, dy), (dx, - dy), (dy, dx), (dy, - dx),
                       (- dx, dy), (- dx, - dy), (- dy, dx), (- dy, - dx)] t of
                 Inl e \<Rightarrow> Inl e
               | Inr (log, t') \<Rightarrow> Inr (True \<in> snd ` set log, t'))) \<and>
         (\<forall>seed st.
            seedStep proximityDistances seed st =
              (case seedAttempts seed proximityDistances (snd st) of
                 Inl e \<Rightarrow> Inl e
               | Inr (log, t') \<Rightarrow>
                   Inr (if True \<in> snd ` set log then fst st @ [seed] else fst st, t'))) \<and>
         tessellateRing v =
           (case ringProbes proximityDistances (activeSeeds v) v1 of
              Inl e \<Rightarrow> Inl e
            | Inr (logs, v2) \<Rightarrow>
                Inr (v2\<lparr>activeSeeds :=
                       map fst (filter (\<lambda>entry. True \<in> snd ` set (snd entry)) logs)\<rparr>)) \<and>
         (\<forall>logs v2.
            ringProbes proximityDistances (activeSeeds v) v1 = Inr (logs, v2) \<longrightarrow>
              map fst logs = activeSeeds v \<and>
              (\<forall>(seed, log) \<in> set logs.
                 map fst log =
                   concat (map (\<lambda>pt. [(X pt, Y pt), (X pt, - Y pt), (Y pt, X pt), (Y pt, - X pt),
                                    (- X pt, Y pt), (- X pt, - Y pt), (- Y pt, X pt),
                                    (- Y pt, - X pt)]) proximityDistances))) \<and>
         (\<forall>seed t log t'.
            seedAttempts seed proximityDistances t = Inr (log, t') \<longrightarrow>
              map fst log =
                concat (map (\<lambda>pt. [(X pt, Y pt), (X pt, - Y pt), (Y pt, X pt), (Y pt, - X pt),
                                    (- X pt, Y pt), (- X pt, - Y pt), (- Y pt, X pt),
                                    (- Y pt, - X pt)]) proximityDistances) \<and>
              length log = 8 * length proximityDistances \<and>
              (\<forall>(dx, dy) \<in> set (map fst log). \<bar>dx\<bar> + \<bar>dy\<bar> = radius v1)) \<and>
         (\<forall>seed t log t' seed' u log' u'.
            seedAttempts seed proximityDistances t = Inr (log, t') \<and>
            seedAttempts seed' proximityDistances u = Inr (log', u') \<longrightarrow>
              map fst log = map fst log')"
proof (intro conjI)
  show "\<forall>t seed d dx dy.
            assignPointsToSeed t seed d dx dy =
              (case reflectionAttempts seed d
                      [(dx, dy), (dx, - dy), (dy, dx), (dy, - dx),
                       (- dx, dy), (- dx, - dy), (- dy, dx), (- dy, - dx)] t of
                 Inl e \<Rightarrow> Inl e
               | Inr (log, t') \<Rightarrow> Inr (True \<in> snd ` set log, t'))"
    unfolding assignPointsToSeed_def reflections_def foldE_claimStep_logged logged_def
    by (auto split: sum.splits)
next
  show "\<forall>seed st.
            seedStep proximityDistances seed st =
              (case seedAttempts seed proximityDistances (snd st) of
                 Inl e \<Rightarrow> Inl e
               | Inr (log, t') \<Rightarrow>
                   Inr (if True \<in> snd ` set log then fst st @ [seed] else fst st, t'))"
    unfolding seedStep_def foldE_distanceStep_logged logged_def
    by (auto split: sum.splits)
next
  have act: "activeSeeds v1 = activeSeeds v"
    using assms(1) by (auto simp: getProximityDistances_def Let_def)
  show "tessellateRing v =
           (case ringProbes proximityDistances (activeSeeds v) v1 of
              Inl e \<Rightarrow> Inl e
            | Inr (logs, v2) \<Rightarrow>
                Inr (v2\<lparr>activeSeeds :=
                       map fst (filter (\<lambda>entry. True \<in> snd ` set (snd entry)) logs)\<rparr>))"
    unfolding tessellateRing_def assms(1) act [symmetric]
    by (auto simp: foldE_seedStep_probes split: sum.splits)
next
  show "(\<forall>logs v2.
            ringProbes proximityDistances (activeSeeds v) v1 = Inr (logs, v2) \<longrightarrow>
              map fst logs = activeSeeds v \<and>
              (\<forall>(seed, log) \<in> set logs.
                 map fst log =
                   concat (map (\<lambda>pt. [(X pt, Y pt), (X pt, - Y pt), (Y pt, X pt), (Y pt, - X pt),
                                    (- X pt, Y pt), (- X pt, - Y pt), (- Y pt, X pt),
                                    (- Y pt, - X pt)]) proximityDistances)))"
  proof (intro allI impI conjI)
    fix logs v2
    assume a: "ringProbes proximityDistances (activeSeeds v) v1 = Inr (logs, v2)"
    show "map fst logs = activeSeeds v" by (rule ringProbes_seeds [OF a])
    show "\<forall>(seed, log) \<in> set logs.
                 map fst log =
                   concat (map (\<lambda>pt. [(X pt, Y pt), (X pt, - Y pt), (Y pt, X pt), (Y pt, - X pt),
                                    (- X pt, Y pt), (- X pt, - Y pt), (- Y pt, X pt),
                                    (- Y pt, - X pt)]) proximityDistances)"
    proof (clarify)
      fix seed log assume "(seed, log) \<in> set logs"
      from ringProbes_entries [OF a this] obtain t t' where
        "seedAttempts seed proximityDistances t = Inr (log, t')" by blast
      from seedAttempts_offsets [OF this]
      show "map fst log =
                   concat (map (\<lambda>pt. [(X pt, Y pt), (X pt, - Y pt), (Y pt, X pt), (Y pt, - X pt),
                                    (- X pt, Y pt), (- X pt, - Y pt), (- Y pt, X pt),
                                    (- Y pt, - X pt)]) proximityDistances)"
        by (simp add: ringOffsets_def reflections_def)
    qed
  qed
next
  have prox: "proximityDistances = proximityLoop 0 (radius v1) []"
    using assms(1) by (auto simp: getProximityDistances_def Let_def)
  show "\<forall>seed t log t'.
            seedAttempts seed proximityDistances t = Inr (log, t') \<longrightarrow>
              map fst log =
                concat (map (\<lambda>pt. [(X pt, Y pt), (X pt, - Y pt), (Y pt, X pt), (Y pt, - X pt),
                                    (- X pt, Y pt), (- X pt, - Y pt), (- Y pt, X pt),
                                    (- Y pt, - X pt)]) proximityDistances) \<and>
              length log = 8 * length proximityDistances \<and>
              (\<forall>(dx, dy) \<in> set (map fst log). \<bar>dx\<bar> + \<bar>dy\<bar> = radius v1)"
  proof (intro allI impI)
    fix seed t log t'
    assume a: "seedAttempts seed proximityDistances t = Inr (log, t')"
    have l: "map fst log = ringOffsets proximityDistances"
      by (rule seedAttempts_offsets [OF a])
    have "length log = length (map fst log)" by simp
    then have len: "length log = 8 * length proximityDistances"
      unfolding l by (simp add: length_ringOffsets)
    have "set (map fst log) = {(dx, dy). \<bar>dx\<bar> + \<bar>dy\<bar> = radius v1}"
      unfolding l prox by (rule ringOffsets_diamond)
    then have "\<forall>(dx, dy) \<in> set (map fst log). \<bar>dx\<bar> + \<bar>dy\<bar> = radius v1" by blast
    then show "map fst log =
                concat (map (\<lambda>pt. [(X pt, Y pt), (X pt, - Y pt), (Y pt, X pt), (Y pt, - X pt),
                                    (- X pt, Y pt), (- X pt, - Y pt), (- Y pt, X pt),
                                    (- Y pt, - X pt)]) proximityDistances) \<and>
              length log = 8 * length proximityDistances \<and>
              (\<forall>(dx, dy) \<in> set (map fst log). \<bar>dx\<bar> + \<bar>dy\<bar> = radius v1)"
      using l len by (simp add: ringOffsets_def reflections_def)
  qed
next
  show "\<forall>seed t log t' seed' u log' u'.
            seedAttempts seed proximityDistances t = Inr (log, t') \<and>
            seedAttempts seed' proximityDistances u = Inr (log', u') \<longrightarrow>
              map fst log = map fst log'"
    by (auto dest!: seedAttempts_offsets)
qed

theorem ring_offsets_independent_of_seed_witness:
  "1 \<le> radius (snd (getProximityDistances demoEngine)) \<and>
   (\<exists>log t'.
      seedAttempts demoSeed (fst (getProximityDistances demoEngine))
        (snd (getProximityDistances demoEngine)) = Inr (log, t') \<and>
      map snd log = [True, False, True, True, True, False, False, False] \<and>
      map fst log = [(0, 1), (0, - 1), (1, 0), (1, 0), (0, 1), (0, - 1), (- 1, 0), (- 1, 0)] \<and>
      length log = 8 \<and>
      assignPointsToSeed (snd (getProximityDistances demoEngine)) demoSeed 1 0 1 = Inr (True, t') \<and>
      seedStep (fst (getProximityDistances demoEngine)) demoSeed
        ([], snd (getProximityDistances demoEngine)) = Inr ([demoSeed], t') \<and>
      tessellateRing demoEngine = Inr (t'\<lparr>activeSeeds := [demoSeed]\<rparr>) \<and>
      ringProbes (fst (getProximityDistances demoEngine)) (activeSeeds demoEngine)
        (snd (getProximityDistances demoEngine)) = Inr ([(demoSeed, log)], t')) \<and>
   (\<exists>log' u'.
      seedAttempts \<lparr>X = 1, Y = 1, Distance = Some 0, Color = None\<rparr>
        (fst (getProximityDistances demoEngine)) demoEngine = Inr (log', u') \<and>
      map snd log' = [False, True, False, False, False, True, True, True] \<and>
      map fst log' = [(0, 1), (0, - 1), (1, 0), (1, 0), (0, 1), (0, - 1), (- 1, 0), (- 1, 0)])"
proof -
  let ?prox = "fst (getProximityDistances demoEngine)"
  let ?v1 = "snd (getProximityDistances demoEngine)"
  let ?s' = "\<lparr>X = 1, Y = 1, Distance = Some 0, Color = None\<rparr>"
  let ?offs = "[(0, 1), (0, - 1), (1, 0), (1, 0), (0, 1), (0, - 1), (- 1, 0), (- 1, 0)] :: (int \<times> int) list"
  have g: "getProximityDistances demoEngine = (?prox, ?v1)" by simp
  have r: "1 \<le> radius ?v1" by (simp add: getProximityDistances_def demoEngine_def)
  have p: "?prox = [\<lparr>X = 0, Y = 1, Distance = None, Color = None\<rparr>]" by code_simp
  note th = ring_offsets_independent_of_seed [OF g r]
  have "case seedAttempts demoSeed ?prox ?v1 of Inl e \<Rightarrow> False
        | Inr r \<Rightarrow> map snd (fst r) = [True, False, True, True, True, False, False, False]"
    by code_simp
  then obtain log t' where a: "seedAttempts demoSeed ?prox ?v1 = Inr (log, t')"
    and bs: "map snd log = [True, False, True, True, True, False, False, False]"
    by (cases "seedAttempts demoSeed ?prox ?v1") auto
  have "case seedAttempts ?s' ?prox demoEngine of Inl e \<Rightarrow> False
        | Inr r \<Rightarrow> map snd (fst r) = [False, True, False, False, False, True, True, True]"
    by code_simp
  then obtain log' u' where b: "seedAttempts ?s' ?prox demoEngine = Inr (log', u')"
    and bs': "map snd log' = [False, True, False, False, False, True, True, True]"
    by (cases "seedAttempts ?s' ?prox demoEngine") auto
  note logs = th [THEN conjunct2, THEN conjunct2, THEN conjunct2, THEN conjunct2, THEN conjunct1]
  from logs a have "map fst log =
      concat (map (\<lambda>pt. [(X pt, Y pt), (X pt, - Y pt), (Y pt, X pt), (Y pt, - X pt),
                          (- X pt, Y pt), (- X pt, - Y pt), (- Y pt, X pt),
                          (- Y pt, - X pt)]) ?prox)"
    and "length log = 8 * length ?prox"
    by blast+
  then have e: "map fst log = ?offs" "length log = 8"
    unfolding p by simp_all
  from logs b have "map fst log' =
      concat (map (\<lambda>pt. [(X pt, Y pt), (X pt, - Y pt), (Y pt, X pt), (Y pt, - X pt),
                          (- X pt, Y pt), (- X pt, - Y pt), (- Y pt, X pt),
                          (- Y pt, - X pt)]) ?prox)"
    by blast
  then have e': "map fst log' = ?offs"
    unfolding p by simp
  have yes: "True \<in> snd ` set log"
    using bs by (metis image_set list.set_intros(1))
  then have s: "seedStep ?prox demoSeed ([], ?v1) = Inr ([demoSeed], t')"
    using th [THEN conjunct2, THEN conjunct1] a by simp
  have d: "index2 (distances ?v1) 0 1 = Inr 1" by code_simp
  have ra: "reflectionAttempts demoSeed 1 (reflections 0 1) ?v1 = Inr (log, t')"
    using a d unfolding p by (auto split: sum.splits)
  have aps: "assignPointsToSeed ?v1 demoSeed 1 0 1 = Inr (True, t')"
    using th [THEN conjunct1, rule_format, of ?v1 demoSeed 1 0 1] ra yes
    by (simp add: reflections_def)
  have probes: "ringProbes ?prox (activeSeeds demoEngine) ?v1 = Inr ([(demoSeed, log)], t')"
    using a by (simp add: demoEngine_def [THEN arg_cong, of activeSeeds])
  have ring: "tessellateRing demoEngine = Inr (t'\<lparr>activeSeeds := [demoSeed]\<rparr>)"
    using th [THEN conjunct2, THEN conjunct2, THEN conjunct1] probes yes by simp
  show ?thesis
    by (intro conjI exI [of _ log] exI [of _ t'] exI [of _ log'] exI [of _ u']
          r a b bs bs' e e' aps s ring probes)
qed

text \<open>The seeds of a ring's log that had a successful attempt.\<close>

definition successful :: "(Point \<times> bool list) list \<Rightarrow> Point list" where
  "successful logs = map fst (filter (\<lambda>entry. True \<in> set (snd entry)) logs)"

lemma successful_simps [simp]:
  "successful [] = []"
  "successful ((s, outs) # logs) = (if True \<in> set outs then s # successful logs else successful logs)"
  by (simp_all add: successful_def)

lemma foldE_seedStep_logged:
  "foldE (seedStep prox) ss (still, v) =
     (case ringAttempts prox ss v of Inl e \<Rightarrow> Inl e
      | Inr (logs, v') \<Rightarrow> Inr (still @ successful logs, v'))"
proof (induction ss arbitrary: still v)
  case Nil
  then show ?case by simp
next
  case (Cons seed ss)
  show ?case
  proof (cases "seedAttempts seed prox v")
    case (Inl e)
    then show ?thesis by (simp add: seedStep_def foldE_distanceStep_logged logged_def)
  next
    case (Inr r)
    obtain log v1 where r: "r = (log, v1)" by (cases r)
    have s: "seedStep prox seed (still, v) =
        Inr (if True \<in> snd ` set log then still @ [seed] else still, v1)"
      using Inr r by (simp add: seedStep_def foldE_distanceStep_logged logged_def)
    show ?thesis
      using Inr r s Cons.IH [of "if True \<in> snd ` set log then still @ [seed] else still" v1]
      by (auto split: sum.splits)
  qed
qed

lemma ringAttempts_seeds:
  "ringAttempts prox ss v = Inr (logs, v') \<Longrightarrow> map fst logs = ss"
  by (induction ss arbitrary: v logs) (auto split: sum.splits)

lemma tessellateRing_logged:
  "tessellateRing v =
     (case ringAttempts (fst (getProximityDistances v)) (activeSeeds v) (snd (getProximityDistances v)) of
        Inl e \<Rightarrow> Inl e
      | Inr (logs, v2) \<Rightarrow> Inr (v2\<lparr>activeSeeds := successful logs\<rparr>))"
  by (auto simp: tessellateRing_def getProximityDistances_def Let_def foldE_seedStep_logged
      split: sum.splits)

lemma subseq_successful: "subseq (successful logs) (map fst logs)"
  unfolding successful_def by (rule subseq_map) (rule subseq_filter_left)

lemma tessellateRing_subseq:
  assumes "tessellateRing v = Inr v'"
  shows "subseq (activeSeeds v') (activeSeeds v)"
proof -
  from assms obtain logs v2 where
    a: "ringAttempts (fst (getProximityDistances v)) (activeSeeds v) (snd (getProximityDistances v)) = Inr (logs, v2)"
    and v': "v' = v2\<lparr>activeSeeds := successful logs\<rparr>"
    by (auto simp: tessellateRing_logged split: sum.splits)
  show ?thesis using subseq_successful [of logs] ringAttempts_seeds [OF a] v' by simp
qed

lemma Tessellate_done: "activeSeeds v = [] \<Longrightarrow> Tessellate h v = Inr v"
  by (simp add: Tessellate.simps [of h v])

lemma Tessellate_single: "activeSeeds v \<noteq> [] \<Longrightarrow> Tessellate False v = tessellateRing v"
  by (simp add: Tessellate.simps [of False v] split: sum.splits)

lemma Tessellate_more:
  "activeSeeds v \<noteq> [] \<Longrightarrow>
   Tessellate True v = (case tessellateRing v of Inl e \<Rightarrow> Inl e | Inr v' \<Rightarrow> Tessellate True v')"
  by (simp add: Tessellate.simps [of True v] split: sum.splits)

text \<open>A property kept by every ring is kept by \<open>Tessellate\<close> and by any sequence of calls.\<close>

lemma Tessellate_invariant:
  assumes "Tessellate h v = Inr v'" and "I v"
    and "\<And>a b. I a \<Longrightarrow> activeSeeds a \<noteq> [] \<Longrightarrow> tessellateRing a = Inr b \<Longrightarrow> I b"
  shows "I v'"
  using assms(1,2)
proof (induction h v rule: Tessellate.induct)
  case (1 h v)
  show ?case
  proof (cases "activeSeeds v = []")
    case True
    then show ?thesis using "1.prems" by (simp add: Tessellate_done)
  next
    case False
    then obtain v1 where r: "tessellateRing v = Inr v1"
      using "1.prems"(1) by (cases h) (auto simp: Tessellate_single Tessellate_more split: sum.splits)
    have i1: "I v1" by (rule assms(3) [OF "1.prems"(2) False r])
    show ?thesis
    proof (cases h)
      case False
      then show ?thesis using "1.prems"(1) \<open>activeSeeds v \<noteq> []\<close> r i1 by (simp add: Tessellate_single)
    next
      case True
      then have t: "Tessellate h v1 = Inr v'"
        using "1.prems"(1) False r by (simp add: Tessellate_more)
      show ?thesis
        by (rule "1.IH" [OF _ r _ t i1]) (use False True in simp_all)
    qed
  qed
qed

lemma steps_invariant:
  assumes "steps hs v = Inr v'" and "I v"
    and "\<And>a b. I a \<Longrightarrow> activeSeeds a \<noteq> [] \<Longrightarrow> tessellateRing a = Inr b \<Longrightarrow> I b"
  shows "I v'"
  using assms(1,2)
proof (induction hs arbitrary: v)
  case Nil
  then show ?case by simp
next
  case (Cons h hs)
  from Cons.prems(1) obtain v1 where a: "Tessellate h v = Inr v1" and b: "steps hs v1 = Inr v'"
    by (auto split: sum.splits)
  have "I v1" by (rule Tessellate_invariant [where I = I, OF a Cons.prems(2) assms(3)])
  then show ?case by (rule Cons.IH [OF b])
qed

lemma Tessellate_to_completion:
  "Tessellate True v = Inr v' \<Longrightarrow> activeSeeds v' = []"
proof (induction True v rule: Tessellate.induct)
  case (1 v)
  show ?case
  proof (cases "activeSeeds v = []")
    case True
    then show ?thesis using "1.prems" by (simp add: Tessellate_done)
  next
    case False
    then obtain v1 where r: "tessellateRing v = Inr v1" and t: "Tessellate True v1 = Inr v'"
      using "1.prems" by (auto simp: Tessellate_more split: sum.splits)
    show ?thesis by (rule "1.hyps" [OF _ r _ t]) (use False in simp_all)
  qed
qed

lemma steps_subseq:
  assumes "steps hs v = Inr v'"
  shows "subseq (activeSeeds v') (activeSeeds v)"
  by (rule steps_invariant [OF assms, where I = "\<lambda>t. subseq (activeSeeds t) (activeSeeds v)"])
     (auto intro: subseq_order.trans tessellateRing_subseq)

text \<open>
  A second small engine: a 3 by 1 grid with seeds at (0,0) and (1,0), as \<open>Init\<close> builds it
  when the seventh random draw is 1 and all others are 0.
\<close>

definition rowSeedA :: Point where
  "rowSeedA = \<lparr>X = 0, Y = 0, Distance = Some 0, Color = Some \<lparr>R = 0, G = 0, B = 0, A = 0\<rparr>\<rparr>"

definition rowSeedB :: Point where
  "rowSeedB = \<lparr>X = 1, Y = 0, Distance = Some 0, Color = Some \<lparr>R = 0, G = 0, B = 0, A = 0\<rparr>\<rparr>"

definition rowEngine :: Voronoi where
  "rowEngine = \<lparr>width = 3, height = 1, numSeeds = 2, seeds = [rowSeedA, rowSeedB],
     activeSeeds = [rowSeedA, rowSeedB],
     diagram = [[Some rowSeedA], [Some rowSeedB], [None]], radius = 0,
     distances = [[0, 1, 4], [1, 2, 5], [4, 5, 8], [9, 10, 13], [16, 17, 20], [25, 26, 29],
                  [36, 37, 40]]\<rparr>"

lemma rowEngine_initialized: "Initialize (\<lambda>k. if k = 6 then 1 else 0) 3 1 2 = Inr rowEngine"
  by code_simp

section \<open>The active seeds after a ring\<close>

text \<open>
  Claim C8. A ring processes exactly the active seeds, each once and in order; the new
  active list consists of exactly those among them that had at least one successful claim
  attempt in the ring, in their previous relative order. Over any sequence of later calls
  the active list only loses seeds (it stays a subsequence), so a seed that was removed is
  never processed again.
\<close>

theorem active_seeds_after_ring:
  "tessellateRing v =
     (case ringAttempts (fst (getProximityDistances v)) (activeSeeds v)
             (snd (getProximityDistances v)) of
        Inl e \<Rightarrow> Inl e
      | Inr (logs, v2) \<Rightarrow>
          Inr (v2\<lparr>activeSeeds := map fst (filter (\<lambda>entry. True \<in> set (snd entry)) logs)\<rparr>)) \<and>
   (\<forall>logs v2. ringAttempts (fst (getProximityDistances v)) (activeSeeds v)
                  (snd (getProximityDistances v)) = Inr (logs, v2) \<longrightarrow>
        map fst logs = activeSeeds v) \<and>
   (\<forall>hs v'. steps hs v = Inr v' \<longrightarrow> subseq (activeSeeds v') (activeSeeds v))"
proof (intro conjI allI impI)
  show "tessellateRing v =
     (case ringAttempts (fst (getProximityDistances v)) (activeSeeds v)
             (snd (getProximityDistances v)) of
        Inl e \<Rightarrow> Inl e
      | Inr (logs, v2) \<Rightarrow>
          Inr (v2\<lparr>activeSeeds := map fst (filter (\<lambda>entry. True \<in> set (snd entry)) logs)\<rparr>))"
    unfolding tessellateRing_logged successful_def by (rule refl)
next
  fix logs v2
  assume "ringAttempts (fst (getProximityDistances v)) (activeSeeds v)
            (snd (getProximityDistances v)) = Inr (logs, v2)"
  then have "map fst logs = activeSeeds (snd (getProximityDistances v))"
    by (simp add: ringAttempts_seeds getProximityDistances_def Let_def)
  then show "map fst logs = activeSeeds v"
    by (simp add: getProximityDistances_def Let_def)
next
  fix hs v' assume "steps hs v = Inr v'"
  then show "subseq (activeSeeds v') (activeSeeds v)" by (rule steps_subseq)
qed

theorem active_seeds_after_ring_witness:
  "(\<exists>logs v2.
      ringAttempts (fst (getProximityDistances rowEngine)) (activeSeeds rowEngine)
        (snd (getProximityDistances rowEngine)) = Inr (logs, v2) \<and>
      logs = [(rowSeedA, [False, False, False, False, False, False, False, False]),
              (rowSeedB, [False, False, True, True, False, False, False, False])] \<and>
      map fst logs = activeSeeds rowEngine \<and>
      tessellateRing rowEngine = Inr (v2\<lparr>activeSeeds := [rowSeedB]\<rparr>)) \<and>
   (\<exists>v'. steps [False, True] rowEngine = Inr v' \<and> activeSeeds v' = [] \<and>
      subseq (activeSeeds v') (activeSeeds rowEngine))"
proof -
  let ?r = "ringAttempts (fst (getProximityDistances rowEngine)) (activeSeeds rowEngine)
        (snd (getProximityDistances rowEngine))"
  let ?logs = "[(rowSeedA, [False, False, False, False, False, False, False, False]),
              (rowSeedB, [False, False, True, True, False, False, False, False])]"
  note th = active_seeds_after_ring [of rowEngine]
  have "case ?r of Inl e \<Rightarrow> False | Inr r \<Rightarrow> fst r = ?logs" by code_simp
  then obtain v2 where a: "?r = Inr (?logs, v2)" by (cases ?r) auto
  have b: "map fst ?logs = activeSeeds rowEngine"
    using th [THEN conjunct2, THEN conjunct1] a by blast
  have c: "tessellateRing rowEngine = Inr (v2\<lparr>activeSeeds := [rowSeedB]\<rparr>)"
    using th [THEN conjunct1] a by simp
  have "case steps [False, True] rowEngine of Inl e \<Rightarrow> False | Inr v' \<Rightarrow> activeSeeds v' = []"
    by code_simp
  then obtain v' where d: "steps [False, True] rowEngine = Inr v'" "activeSeeds v' = []"
    by (cases "steps [False, True] rowEngine") auto
  have e: "subseq (activeSeeds v') (activeSeeds rowEngine)"
    using th [THEN conjunct2, THEN conjunct2] d(1) by blast
  show ?thesis
    by (intro conjI exI [of _ ?logs] exI [of _ v2] exI [of _ v'] a b c d e refl)
qed

section \<open>What a ring does to the grid\<close>

definition manhattan :: "Point \<Rightarrow> int \<Rightarrow> int \<Rightarrow> int" where
  "manhattan s x y = \<bar>x - X s\<bar> + \<bar>y - Y s\<bar>"

lemma seedRound_diamond:
  assumes "validGrid v" "foldE (distanceStep seed) (proximityLoop 0 r []) (False, v) = Inr (b, v')"
  shows "validGrid v'" and "sameButDiagram v v'" and "keepsCells v v'"
    and "\<And>x y. inBounds v x y \<Longrightarrow> manhattan seed x y = r \<Longrightarrow> cellAt v' x y \<noteq> None"
    and "\<And>x y p. cellAt v' x y = Some p \<Longrightarrow>
           cellAt v x y = Some p \<or> (b \<and> manhattan seed x y = r \<and> Color p = Color seed)"
proof -
  have e: "claimEffect seed {(dx, dy). \<bar>dx\<bar> + \<bar>dy\<bar> = r} (False, v) (b, v')"
    using seedRound_effect [OF assms] by (simp add: ringOffsets_diamond)
  show "validGrid v'" "sameButDiagram v v'" "keepsCells v v'"
    using e by (simp_all add: claimEffect_def)
  show "cellAt v' x y \<noteq> None" if "inBounds v x y" "manhattan seed x y = r" for x y
  proof -
    have "(x - X seed, y - Y seed) \<in> {(dx, dy). \<bar>dx\<bar> + \<bar>dy\<bar> = r}"
      using that(2) by (simp add: manhattan_def)
    moreover have "inBounds v (X seed + (x - X seed)) (Y seed + (y - Y seed))"
      using that(1) by simp
    ultimately have "cellAt v' (X seed + (x - X seed)) (Y seed + (y - Y seed)) \<noteq> None"
      using e unfolding claimEffect_def by fastforce
    then show ?thesis by simp
  qed
  show "cellAt v x y = Some p \<or> (b \<and> manhattan seed x y = r \<and> Color p = Color seed)"
    if "cellAt v' x y = Some p" for x y p
    using e that unfolding claimEffect_def manhattan_def by fastforce
qed

text \<open>
  The state of the loop over the active seeds of a ring of radius \<open>r\<close> that started in
  \<open>v1\<close>, after the seeds \<open>seen\<close>: every grid cell at Manhattan distance \<open>r\<close> from a
  processed seed is assigned, and a cell that changed carries the colour of a seed that is
  kept active and lies at Manhattan distance \<open>r\<close> from it.
\<close>

definition ringInv :: "Voronoi \<Rightarrow> int \<Rightarrow> Point list \<Rightarrow> Point list \<times> Voronoi \<Rightarrow> bool" where
  "ringInv v1 r seen st =
     (validGrid (snd st) \<and> sameButDiagram v1 (snd st) \<and> keepsCells v1 (snd st) \<and>
      set (fst st) \<subseteq> set seen \<and>
      (\<forall>s \<in> set seen. \<forall>x y. inBounds v1 x y \<and> manhattan s x y = r \<longrightarrow> cellAt (snd st) x y \<noteq> None) \<and>
      (\<forall>x y p. cellAt (snd st) x y = Some p \<longrightarrow>
          cellAt v1 x y = Some p \<or>
          (\<exists>s \<in> set (fst st). manhattan s x y = r \<and> Color p = Color s)))"

lemma ringInv_start: "validGrid v1 \<Longrightarrow> ringInv v1 r [] ([], v1)"
  by (simp add: ringInv_def)

lemma seedStep_ringInv:
  assumes inv: "ringInv v1 r seen st"
    and step: "seedStep (proximityLoop 0 r []) seed st = Inr st'"
  shows "ringInv v1 r (seen @ [seed]) st'"
proof -
  from step obtain b v' where
    f: "foldE (distanceStep seed) (proximityLoop 0 r []) (False, snd st) = Inr (b, v')"
    and st': "st' = (if b then fst st @ [seed] else fst st, v')"
    by (auto simp: seedStep_def split: sum.splits)
  have vs: "validGrid (snd st)" and fr: "sameButDiagram v1 (snd st)" and kc: "keepsCells v1 (snd st)"
    using inv by (simp_all add: ringInv_def)
  note d = seedRound_diamond [OF vs f]
  have ib: "inBounds (snd st) x y = inBounds v1 x y" for x y
    by (rule inBounds_frame [OF fr])
  show ?thesis
    unfolding ringInv_def
  proof (intro conjI ballI allI impI)
    show "validGrid (snd st')" using d(1) by (simp add: st')
    show "sameButDiagram v1 (snd st')"
      using sameButDiagram_trans [OF fr d(2)] by (simp add: st')
    show "keepsCells v1 (snd st')"
      using keepsCells_trans [OF kc d(3)] by (simp add: st')
    show "set (fst st') \<subseteq> set (seen @ [seed])"
      using inv by (auto simp: ringInv_def st')
  next
    fix s x y
    assume s: "s \<in> set (seen @ [seed])" and xy: "inBounds v1 x y \<and> manhattan s x y = r"
    show "cellAt (snd st') x y \<noteq> None"
    proof (cases "s = seed")
      case True
      then show ?thesis using d(4) [of x y] xy ib by (simp add: st')
    next
      case False
      then have "s \<in> set seen" using s by simp
      then have "cellAt (snd st) x y \<noteq> None" using inv xy unfolding ringInv_def by blast
      then show ?thesis using keepsCells_assigned [OF d(3) vs] by (simp add: st')
    qed
  next
    fix x y p assume "cellAt (snd st') x y = Some p"
    then have c: "cellAt v' x y = Some p" by (simp add: st')
    from d(5) [OF c] show "cellAt v1 x y = Some p \<or>
        (\<exists>s \<in> set (fst st'). manhattan s x y = r \<and> Color p = Color s)"
    proof
      assume "cellAt (snd st) x y = Some p"
      then have "cellAt v1 x y = Some p \<or>
          (\<exists>s \<in> set (fst st). manhattan s x y = r \<and> Color p = Color s)"
        using inv unfolding ringInv_def by blast
      then show ?thesis by (auto simp: st')
    next
      assume "b \<and> manhattan seed x y = r \<and> Color p = Color seed"
      then show ?thesis by (auto simp: st')
    qed
  qed
qed

lemma foldE_seedStep_ringInv:
  assumes "ringInv v1 r seen st"
    and "foldE (seedStep (proximityLoop 0 r [])) ss st = Inr st'"
  shows "ringInv v1 r (seen @ ss) st'"
  using assms
proof (induction ss arbitrary: seen st)
  case Nil
  then show ?case by simp
next
  case (Cons seed ss)
  from Cons.prems(2) obtain t where t: "seedStep (proximityLoop 0 r []) seed st = Inr t"
    and r: "foldE (seedStep (proximityLoop 0 r [])) ss t = Inr st'"
    by (auto split: sum.splits)
  have "ringInv v1 r (seen @ [seed]) t" by (rule seedStep_ringInv [OF Cons.prems(1) t])
  from Cons.IH [OF this r] show ?case by simp
qed

lemma cellAt_radius [simp]: "cellAt (v\<lparr>radius := r\<rparr>) x y = cellAt v x y"
  by (simp add: cellAt_def)

lemma cellAt_activeSeeds [simp]: "cellAt (v\<lparr>activeSeeds := ss\<rparr>) x y = cellAt v x y"
  by (simp add: cellAt_def)

lemma storedDistance_radius [simp]: "storedDistance (v\<lparr>radius := r\<rparr>) x y = storedDistance v x y"
  by (simp add: storedDistance_def)

lemma storedDistance_activeSeeds [simp]:
  "storedDistance (v\<lparr>activeSeeds := ss\<rparr>) x y = storedDistance v x y"
  by (simp add: storedDistance_def)

lemma validGrid_radius [simp]: "validGrid (v\<lparr>radius := r\<rparr>) = validGrid v"
  by (simp add: validGrid_def)

lemma validGrid_activeSeeds [simp]: "validGrid (v\<lparr>activeSeeds := ss\<rparr>) = validGrid v"
  by (simp add: validGrid_def)

lemma tessellateRing_summary:
  assumes "validGrid v" "tessellateRing v = Inr v'"
  shows "validGrid v'" and "keepsCells v v'"
    and "set (activeSeeds v') \<subseteq> set (activeSeeds v)"
    and "\<And>s x y. s \<in> set (activeSeeds v) \<Longrightarrow> inBounds v x y \<Longrightarrow>
           manhattan s x y = radius v + 1 \<Longrightarrow> cellAt v' x y \<noteq> None"
    and "\<And>x y p. cellAt v' x y = Some p \<Longrightarrow>
           cellAt v x y = Some p \<or>
           (\<exists>s \<in> set (activeSeeds v'). manhattan s x y = radius v + 1 \<and> Color p = Color s)"
proof -
  let ?v1 = "v\<lparr>radius := radius v + 1\<rparr>"
  from assms(2) obtain still v2 where
    f: "foldE (seedStep (proximityLoop 0 (radius v + 1) [])) (activeSeeds v) ([], ?v1) = Inr (still, v2)"
    and v': "v' = v2\<lparr>activeSeeds := still\<rparr>"
    by (auto simp: tessellateRing_def getProximityDistances_def Let_def split: sum.splits)
  have "ringInv ?v1 (radius v + 1) [] ([], ?v1)"
    by (rule ringInv_start) (use assms(1) in simp)
  from foldE_seedStep_ringInv [OF this f]
  have inv: "ringInv ?v1 (radius v + 1) (activeSeeds v) (still, v2)" by simp
  show "validGrid v'" using inv by (simp add: ringInv_def v')
  show "keepsCells v v'" using inv by (simp add: ringInv_def v' keepsCells_def)
  show "set (activeSeeds v') \<subseteq> set (activeSeeds v)" using inv by (simp add: ringInv_def v')
  show "cellAt v' x y \<noteq> None"
    if "s \<in> set (activeSeeds v)" "inBounds v x y" "manhattan s x y = radius v + 1" for s x y
  proof -
    have "inBounds ?v1 x y" using that(2) by (simp add: inBounds_def)
    then have "cellAt v2 x y \<noteq> None"
      using inv that(1,3) unfolding ringInv_def by fastforce
    then show ?thesis by (simp add: v')
  qed
  show "cellAt v x y = Some p \<or>
      (\<exists>s \<in> set (activeSeeds v'). manhattan s x y = radius v + 1 \<and> Color p = Color s)"
    if "cellAt v' x y = Some p" for x y p
  proof -
    have "cellAt v2 x y = Some p" using that by (simp add: v')
    then have "cellAt ?v1 x y = Some p \<or>
        (\<exists>s \<in> set still. manhattan s x y = radius v + 1 \<and> Color p = Color s)"
      using inv unfolding ringInv_def by fastforce
    then show ?thesis by (simp add: v')
  qed
qed

section \<open>Stored distances never grow\<close>

lemma steps_valid_keeps:
  assumes "validGrid v" "steps hs v = Inr v'"
  shows "validGrid v' \<and> keepsCells v v'"
  by (rule steps_invariant [OF assms(2), where I = "\<lambda>t. validGrid t \<and> keepsCells v t"])
     (use assms(1) in \<open>auto intro: keepsCells_trans tessellateRing_summary(1,2)\<close>)

text \<open>
  Claim C7, as amended. When a claim succeeds on a cell that is already assigned, the
  candidate distance is at most the stored one, and it is the distance stored afterwards:
  an overwrite keeps the distance on a tie and lowers it otherwise; it never raises it.
\<close>

theorem overwrite_never_raises_distance:
  assumes "validGrid v"
    and "cellAt v (X seed + dx) (Y seed + dy) = Some p"
    and "assignPointToSeed v seed distance dx dy = Inr (True, v')"
  shows "distance \<le> the (Distance p) \<and>
         storedDistance v' (X seed + dx) (Y seed + dy) = Some distance"
proof -
  have ib: "inBounds v (X seed + dx) (Y seed + dy)"
    by (rule cellAt_inBounds [OF assms(1)]) (simp add: assms(2))
  have "\<not> the (Distance p) < distance"
    and v': "v' = setCell v (X seed + dx) (Y seed + dy)
                    (Some (claimed seed distance (X seed + dx) (Y seed + dy)))"
    using assms(3) by (auto simp: assignPointToSeed_inside [OF assms(1) ib] assms(2) split: if_splits)
  then show ?thesis
    by (simp add: storedDistance_setCell [OF assms(1) ib] claimed_def)
qed

theorem overwrite_never_raises_distance_witness:
  "validGrid demoEngine \<and> cellAt demoEngine (X demoSeed + 0) (Y demoSeed + 0) = Some demoSeed \<and>
   assignPointToSeed demoEngine demoSeed 0 0 0 = Inr (True, demoEngine) \<and>
   0 \<le> the (Distance demoSeed) \<and>
   storedDistance demoEngine (X demoSeed + 0) (Y demoSeed + 0) = Some 0"
proof -
  have c: "cellAt demoEngine (X demoSeed + 0) (Y demoSeed + 0) = Some demoSeed" by code_simp
  have a: "assignPointToSeed demoEngine demoSeed 0 0 0 = Inr (True, demoEngine)" by code_simp
  show ?thesis
    using overwrite_never_raises_distance [OF demoEngine_valid c a] demoEngine_valid c a by simp
qed

definition twoSeedDraws :: "nat \<Rightarrow> int" where
  "twoSeedDraws k = (if k = 0 then 3 else if k = 6 \<or> k = 7 then 2 else 0)"

definition distanceAfter :: "bool list \<Rightarrow> error + Voronoi \<Rightarrow> int \<Rightarrow> int \<Rightarrow> int option" where
  "distanceAfter hs r x y =
     (case r of Inl e \<Rightarrow> None
      | Inr v \<Rightarrow> (case steps hs v of Inl e \<Rightarrow> None | Inr v' \<Rightarrow> storedDistance v' x y))"

text \<open>
  Claim C7 as written (an overwrite always stores the distance already stored) fails:
  on a 4 by 3 grid with seeds at (3,0) and (2,2), cell (0,0) is claimed in ring 3 by the
  first seed at squared distance 9 and overwritten in ring 4 by the second at squared
  distance 8.
\<close>

theorem overwrite_lowers_distance:
  "map X (case Initialize twoSeedDraws 4 3 2 of Inl e \<Rightarrow> [] | Inr v \<Rightarrow> seeds v) = [3, 2] \<and>
   map Y (case Initialize twoSeedDraws 4 3 2 of Inl e \<Rightarrow> [] | Inr v \<Rightarrow> seeds v) = [0, 2] \<and>
   distanceAfter [False, False, False] (Initialize twoSeedDraws 4 3 2) 0 0 = Some 9 \<and>
   distanceAfter [False, False, False, False] (Initialize twoSeedDraws 4 3 2) 0 0 = Some 8"
  by code_simp

text \<open>
  Claim C10. From a valid engine state, over any sequence of calls of \<open>Tessellate\<close>,
  a cell that holds a distance keeps holding one, and it never grows; the grid stays valid.
  A claim replaces what an assigned cell holds only when its candidate distance is at most
  the stored one. (\<open>Tessellate\<close> never empties a cell; only \<open>Init\<close> rebuilds the grid.)
\<close>

theorem stored_distance_never_increases:
  assumes "validGrid v"
  shows "(\<forall>hs v'. steps hs v = Inr v' \<longrightarrow>
            validGrid v' \<and>
            (\<forall>x y d. storedDistance v x y = Some d \<longrightarrow>
               (\<exists>d'. storedDistance v' x y = Some d' \<and> d' \<le> d))) \<and>
         (\<forall>seed distance dx dy b v' x y d.
            assignPointToSeed v seed distance dx dy = Inr (b, v') \<and>
            storedDistance v x y = Some d \<and> cellAt v' x y \<noteq> cellAt v x y \<longrightarrow>
            distance \<le> d \<and> storedDistance v' x y = Some distance)"
proof (rule conjI)
  show "\<forall>hs v'. steps hs v = Inr v' \<longrightarrow>
            validGrid v' \<and>
            (\<forall>x y d. storedDistance v x y = Some d \<longrightarrow>
               (\<exists>d'. storedDistance v' x y = Some d' \<and> d' \<le> d))"
  proof (intro allI impI)
    fix hs v' assume "steps hs v = Inr v'"
    from steps_valid_keeps [OF assms this]
    show "validGrid v' \<and>
        (\<forall>x y d. storedDistance v x y = Some d \<longrightarrow> (\<exists>d'. storedDistance v' x y = Some d' \<and> d' \<le> d))"
      by (simp add: keepsCells_def)
  qed
next
  show "\<forall>seed distance dx dy b v' x y d.
            assignPointToSeed v seed distance dx dy = Inr (b, v') \<and>
            storedDistance v x y = Some d \<and> cellAt v' x y \<noteq> cellAt v x y \<longrightarrow>
            distance \<le> d \<and> storedDistance v' x y = Some distance"
  proof (intro allI impI)
    fix seed distance dx dy b v' x y d
    assume a: "assignPointToSeed v seed distance dx dy = Inr (b, v') \<and>
        storedDistance v x y = Some d \<and> cellAt v' x y \<noteq> cellAt v x y"
    let ?tx = "X seed + dx" and ?ty = "Y seed + dy"
    have ib: "inBounds v ?tx ?ty"
      using a by (cases "inBounds v ?tx ?ty") (auto simp: assignPointToSeed_outside)
    obtain p where p: "cellAt v x y = Some p" "Distance p = Some d"
      using a by (auto simp: storedDistance_def split: option.splits)
    have v': "v' = setCell v ?tx ?ty (Some (claimed seed distance ?tx ?ty))"
      using a by (auto simp: assignPointToSeed_inside [OF assms ib] split: option.splits if_splits)
    have xy: "x = ?tx \<and> y = ?ty"
      using a v' by (auto simp: cellAt_setCell [OF assms ib] split: if_splits)
    have "\<not> d < distance"
      using a p xy by (auto simp: assignPointToSeed_inside [OF assms ib] split: if_splits)
    then show "distance \<le> d \<and> storedDistance v' x y = Some distance"
      using xy by (simp add: v' storedDistance_setCell [OF assms ib] claimed_def)
  qed
qed

theorem stored_distance_never_increases_witness:
  "validGrid rowEngine \<and>
   (\<exists>v'. steps [False, True] rowEngine = Inr v' \<and> validGrid v' \<and>
      storedDistance rowEngine 1 0 = Some 0 \<and> storedDistance v' 1 0 = Some 0 \<and>
      storedDistance v' 2 0 = Some 1)"
proof -
  have v: "validGrid rowEngine" by code_simp
  have "case steps [False, True] rowEngine of Inl e \<Rightarrow> False
        | Inr v' \<Rightarrow> storedDistance v' 1 0 = Some 0 \<and> storedDistance v' 2 0 = Some 1"
    by code_simp
  then obtain v' where s: "steps [False, True] rowEngine = Inr v'"
    "storedDistance v' 1 0 = Some 0" "storedDistance v' 2 0 = Some 1"
    by (cases "steps [False, True] rowEngine") auto
  have d: "storedDistance rowEngine 1 0 = Some 0" by code_simp
  have "validGrid v'"
    using stored_distance_never_increases [OF v, THEN conjunct1] s(1) by blast
  then show ?thesis using v s d by blast
qed

section \<open>The growth front\<close>

text \<open>All grid cells within Manhattan distance \<open>k\<close> of \<open>s\<close> are assigned.\<close>

definition covered :: "Voronoi \<Rightarrow> Point \<Rightarrow> int \<Rightarrow> bool" where
  "covered v s k = (\<forall>x y. inBounds v x y \<and> manhattan s x y \<le> k \<longrightarrow> cellAt v x y \<noteq> None)"

text \<open>
  The invariant of the tessellation: every active seed has covered its diamond up to the
  current radius; every assigned cell carries the colour of a seed, and was last written
  by a seed that either went on to cover the next ring around itself or is still active.
\<close>

definition frontInv :: "Voronoi \<Rightarrow> bool" where
  "frontInv v =
     (validGrid v \<and> set (activeSeeds v) \<subseteq> set (seeds v) \<and>
      (\<forall>s \<in> set (activeSeeds v). covered v s (radius v)) \<and>
      (\<forall>x y p. cellAt v x y = Some p \<longrightarrow>
          (\<exists>s \<in> set (seeds v). Color p = Color s) \<and>
          (\<exists>s. covered v s (manhattan s x y + 1) \<or>
               (s \<in> set (activeSeeds v) \<and> manhattan s x y \<le> radius v))))"

lemma covered_mono: "covered v s k \<Longrightarrow> j \<le> k \<Longrightarrow> covered v s j"
  unfolding covered_def by (meson order_trans)

lemma covered_keeps:
  assumes "covered v s k" "keepsCells v v'" "validGrid v" "width v' = width v" "height v' = height v"
  shows "covered v' s k"
  unfolding covered_def
proof (intro allI impI)
  fix x y assume a: "inBounds v' x y \<and> manhattan s x y \<le> k"
  then have "inBounds v x y" using assms(4,5) by (simp add: inBounds_def)
  then have "cellAt v x y \<noteq> None" using assms(1) a by (simp add: covered_def)
  then show "cellAt v' x y \<noteq> None" by (rule keepsCells_assigned [OF assms(2,3)])
qed

lemma frontInv_initial:
  assumes "validGrid v" "seedsPlaced v" "activeSeeds v = seeds v" "radius v = 0"
  shows "frontInv v"
  unfolding frontInv_def
proof (intro conjI ballI allI impI)
  show "validGrid v" by fact
  show "set (activeSeeds v) \<subseteq> set (seeds v)" using assms(3) by simp
next
  fix s assume "s \<in> set (activeSeeds v)"
  then have s: "s \<in> set (seeds v)" using assms(3) by simp
  show "covered v s (radius v)"
    unfolding covered_def
  proof (intro allI impI)
    fix x y assume "inBounds v x y \<and> manhattan s x y \<le> radius v"
    then have "\<bar>x - X s\<bar> + \<bar>y - Y s\<bar> \<le> 0" using assms(4) by (simp add: manhattan_def)
    then have "x = X s \<and> y = Y s" by linarith
    then show "cellAt v x y \<noteq> None" using assms(2) s by (simp add: seedsPlaced_def)
  qed
next
  fix x y p assume c: "cellAt v x y = Some p"
  then have p: "p \<in> set (seeds v)" using assms(2) by (simp add: seedsPlaced_def)
  then show "\<exists>s \<in> set (seeds v). Color p = Color s" by blast
  have "X p = x \<and> Y p = y" using assms(1) c by (simp add: validGrid_iff)
  then have "manhattan p x y \<le> radius v" using assms(4) by (simp add: manhattan_def)
  then show "\<exists>s. covered v s (manhattan s x y + 1) \<or>
      (s \<in> set (activeSeeds v) \<and> manhattan s x y \<le> radius v)"
    using p assms(3) by auto
qed

lemma frontInv_ring:
  assumes inv: "frontInv v" and ring: "tessellateRing v = Inr v'"
  shows "frontInv v'"
proof -
  have valid: "validGrid v" using inv by (simp add: frontInv_def)
  note s = tessellateRing_summary [OF valid ring]
  note fr = tessellateRing_frame [OF ring]
  have ib: "inBounds v' x y = inBounds v x y" for x y
    using fr by (simp add: inBounds_def)
  have processed: "covered v' s (radius v + 1)" if act: "s \<in> set (activeSeeds v)" for s
    unfolding covered_def
  proof (intro allI impI)
    fix x y assume a: "inBounds v' x y \<and> manhattan s x y \<le> radius v + 1"
    show "cellAt v' x y \<noteq> None"
    proof (cases "manhattan s x y = radius v + 1")
      case True
      then show ?thesis using s(4) [OF act] a ib by simp
    next
      case False
      then have "manhattan s x y \<le> radius v" using a by simp
      moreover have "covered v s (radius v)" using inv act by (simp add: frontInv_def)
      ultimately have "cellAt v x y \<noteq> None" using a ib by (simp add: covered_def)
      then show ?thesis by (rule keepsCells_assigned [OF s(2) valid])
    qed
  qed
  show ?thesis
    unfolding frontInv_def
  proof (intro conjI ballI allI impI)
    show "validGrid v'" by (rule s(1))
    show "set (activeSeeds v') \<subseteq> set (seeds v')"
      using s(3) inv fr by (auto simp: frontInv_def)
  next
    fix s assume "s \<in> set (activeSeeds v')"
    then have "s \<in> set (activeSeeds v)" using s(3) by blast
    then show "covered v' s (radius v')" using processed fr by simp
  next
    fix x y p assume c: "cellAt v' x y = Some p"
    from s(5) [OF c] show "\<exists>s \<in> set (seeds v'). Color p = Color s"
    proof
      assume "cellAt v x y = Some p"
      then show ?thesis using inv fr by (simp add: frontInv_def)
    next
      assume "\<exists>s \<in> set (activeSeeds v'). manhattan s x y = radius v + 1 \<and> Color p = Color s"
      then obtain s where "s \<in> set (activeSeeds v')" "Color p = Color s" by blast
      moreover have "set (activeSeeds v') \<subseteq> set (seeds v')"
        using s(3) inv fr by (auto simp: frontInv_def)
      ultimately show ?thesis by blast
    qed
    from s(5) [OF c] show "\<exists>s. covered v' s (manhattan s x y + 1) \<or>
        (s \<in> set (activeSeeds v') \<and> manhattan s x y \<le> radius v')"
    proof
      assume "cellAt v x y = Some p"
      then obtain s where "covered v s (manhattan s x y + 1) \<or>
          (s \<in> set (activeSeeds v) \<and> manhattan s x y \<le> radius v)"
        using inv unfolding frontInv_def by blast
      then show ?thesis
      proof
        assume "covered v s (manhattan s x y + 1)"
        then have "covered v' s (manhattan s x y + 1)"
          by (rule covered_keeps [OF _ s(2) valid fr(1,2)])
        then show ?thesis by blast
      next
        assume a: "s \<in> set (activeSeeds v) \<and> manhattan s x y \<le> radius v"
        then have "covered v' s (radius v + 1)" using processed by simp
        then have "covered v' s (manhattan s x y + 1)"
          by (rule covered_mono) (use a in simp)
        then show ?thesis by blast
      qed
    next
      assume "\<exists>s \<in> set (activeSeeds v'). manhattan s x y = radius v + 1 \<and> Color p = Color s"
      then show ?thesis using fr by auto
    qed
  qed
qed

lemma steps_frontInv:
  assumes "frontInv v" "steps hs v = Inr v'"
  shows "frontInv v'"
  by (rule steps_invariant [OF assms(2), where I = frontInv]) (auto intro: assms(1) frontInv_ring)

text \<open>
  Once no seed is active, the neighbours of an assigned cell are assigned; the grid is
  connected, so one assigned cell makes all cells assigned.
\<close>

lemma finished_neighbours:
  assumes "frontInv v" "activeSeeds v = []" "cellAt v x y \<noteq> None"
    and "inBounds v x' y'" "\<bar>x' - x\<bar> + \<bar>y' - y\<bar> \<le> 1"
  shows "cellAt v x' y' \<noteq> None"
proof -
  from assms(3) obtain p where "cellAt v x y = Some p" by auto
  then obtain s where c: "covered v s (manhattan s x y + 1)"
    using assms(1,2) unfolding frontInv_def by fastforce
  have "manhattan s x' y' \<le> manhattan s x y + 1"
    using assms(5) by (simp add: manhattan_def)
  then show ?thesis using c assms(4) by (simp add: covered_def)
qed

lemma finished_all_assigned:
  assumes inv: "frontInv v" and fin: "activeSeeds v = []" and c0: "cellAt v x0 y0 \<noteq> None"
    and ib: "inBounds v x y"
  shows "cellAt v x y \<noteq> None"
proof -
  have valid: "validGrid v" using inv by (simp add: frontInv_def)
  have ib0: "inBounds v x0 y0" by (rule cellAt_inBounds [OF valid c0])
  have "\<forall>x y. inBounds v x y \<and> \<bar>x - x0\<bar> + \<bar>y - y0\<bar> = int n \<longrightarrow> cellAt v x y \<noteq> None" for n
  proof (induction n)
    case 0
    show ?case
    proof (intro allI impI)
      fix x y assume "inBounds v x y \<and> \<bar>x - x0\<bar> + \<bar>y - y0\<bar> = int 0"
      then have "\<bar>x - x0\<bar> + \<bar>y - y0\<bar> = 0" by simp
      then have "x = x0 \<and> y = y0" by linarith
      then show "cellAt v x y \<noteq> None" using c0 by simp
    qed
  next
    case (Suc n)
    show ?case
    proof (intro allI impI)
      fix x y assume a: "inBounds v x y \<and> \<bar>x - x0\<bar> + \<bar>y - y0\<bar> = int (Suc n)"
      define x' where "x' = (if x < x0 then x + 1 else if x0 < x then x - 1 else x)"
      define y' where "y' = (if x = x0 then (if y < y0 then y + 1 else y - 1) else y)"
      have near: "\<bar>x - x'\<bar> + \<bar>y - y'\<bar> \<le> 1" by (auto simp: x'_def y'_def)
      have dist: "\<bar>x' - x0\<bar> + \<bar>y' - y0\<bar> = int n" using a by (auto simp: x'_def y'_def)
      have "inBounds v x' y'" using a ib0 by (auto simp: inBounds_def x'_def y'_def)
      then have "cellAt v x' y' \<noteq> None" using Suc.IH dist by blast
      then show "cellAt v x y \<noteq> None"
        using finished_neighbours [OF inv fin _ _ near] a by blast
    qed
  qed
  then have "cellAt v x y \<noteq> None" if "\<bar>x - x0\<bar> + \<bar>y - y0\<bar> = int n" for n
    using ib that by blast
  then show ?thesis using nat_0_le [of "\<bar>x - x0\<bar> + \<bar>y - y0\<bar>"] by (metis abs_ge_zero add_nonneg_nonneg)
qed

section \<open>Completion\<close>

lemma steps_idle: "activeSeeds v = [] \<Longrightarrow> steps hs v = Inr v"
  by (induction hs) (simp_all add: Tessellate_done)

text \<open>
  Claim C1. Start from an initialised engine (width and height above 0, seed count at most
  \<open>width * height\<close>, any random draws). With at least one seed: a run of
  \<open>Tessellate(true)\<close> that returns leaves no active seed and every grid cell assigned,
  carrying the colour of one of the seeds; the same holds after any sequence of calls that
  ends with no active seed. With no seed, any sequence of calls leaves the engine as it
  is, with every cell unassigned.
\<close>

theorem every_cell_assigned_at_completion:
  assumes "0 < w" and "0 < h" and "n \<le> w * h" and "Initialize rnd w h n = Inr v"
  shows "(0 < n \<longrightarrow>
            (\<forall>v'. Tessellate True v = Inr v' \<longrightarrow>
               activeSeeds v' = [] \<and>
               (\<forall>x y. inBounds v' x y \<longrightarrow>
                  (\<exists>p s. cellAt v' x y = Some p \<and> s \<in> set (seeds v') \<and> Color p = Color s))) \<and>
            (\<forall>hs v'. steps hs v = Inr v' \<and> activeSeeds v' = [] \<longrightarrow>
               (\<forall>x y. inBounds v' x y \<longrightarrow>
                  (\<exists>p s. cellAt v' x y = Some p \<and> s \<in> set (seeds v') \<and> Color p = Color s)))) \<and>
         (n = 0 \<longrightarrow> (\<forall>hs. steps hs v = Inr v) \<and> (\<forall>x y. cellAt v x y = None))"
proof -
  from Initialize_result_valid [OF assms(1,2,4)]
  have valid: "validGrid v" and placed: "seedsPlaced v" and act: "activeSeeds v = seeds v"
    and rad: "radius v = 0" and len: "length (seeds v) = nat n"
    by auto
  have inv: "frontInv v" by (rule frontInv_initial [OF valid placed act rad])
  have complete: "\<forall>x y. inBounds v' x y \<longrightarrow>
      (\<exists>p s. cellAt v' x y = Some p \<and> s \<in> set (seeds v') \<and> Color p = Color s)"
    if n: "0 < n" and st: "steps hs v = Inr v'" and fin: "activeSeeds v' = []" for hs v'
  proof (intro allI impI)
    fix x y assume ib: "inBounds v' x y"
    have inv': "frontInv v'" by (rule steps_frontInv [OF inv st])
    obtain s0 where s0: "s0 \<in> set (seeds v)" using n len by (cases "seeds v") auto
    then have "cellAt v (X s0) (Y s0) \<noteq> None" using placed by (simp add: seedsPlaced_def)
    then have "cellAt v' (X s0) (Y s0) \<noteq> None"
      using steps_valid_keeps [OF valid st] keepsCells_assigned [OF _ valid] by blast
    from finished_all_assigned [OF inv' fin this ib]
    obtain p where p: "cellAt v' x y = Some p" by auto
    then obtain s where "s \<in> set (seeds v')" "Color p = Color s"
      using inv' unfolding frontInv_def by blast
    then show "\<exists>p s. cellAt v' x y = Some p \<and> s \<in> set (seeds v') \<and> Color p = Color s"
      using p by blast
  qed
  have run: "activeSeeds v' = [] \<and> (\<forall>x y. inBounds v' x y \<longrightarrow>
      (\<exists>p s. cellAt v' x y = Some p \<and> s \<in> set (seeds v') \<and> Color p = Color s))"
    if n: "0 < n" and t: "Tessellate True v = Inr v'" for v'
  proof -
    have fin: "activeSeeds v' = []" by (rule Tessellate_to_completion [OF t])
    have "steps [True] v = Inr v'" using t by simp
    from complete [OF n this fin] fin show ?thesis by simp
  qed
  have none: "(\<forall>hs. steps hs v = Inr v) \<and> (\<forall>x y. cellAt v x y = None)" if "n = 0"
  proof -
    have e: "seeds v = []" using len that by simp
    then have "activeSeeds v = []" using act by simp
    then have "\<forall>hs. steps hs v = Inr v" by (simp add: steps_idle)
    moreover have "\<forall>x y. cellAt v x y = None"
      using placed e by (auto simp: seedsPlaced_def)
    ultimately show ?thesis by simp
  qed
  show ?thesis using complete run none by blast
qed

theorem every_cell_assigned_at_completion_witness:
  "(\<exists>v v'. Initialize (\<lambda>k. 0) 2 2 1 = Inr v \<and> Tessellate True v = Inr v' \<and>
      activeSeeds v' = [] \<and> inBounds v' 1 1 \<and>
      (\<exists>p s. cellAt v' 1 1 = Some p \<and> s \<in> set (seeds v') \<and> Color p = Color s)) \<and>
   (\<exists>v. Initialize (\<lambda>k. 0) 2 2 0 = Inr v \<and> steps [True, False] v = Inr v \<and> cellAt v 1 1 = None)"
proof -
  have "case Initialize (\<lambda>k. 0) 2 2 1 of Inl e \<Rightarrow> False
        | Inr v \<Rightarrow> (case Tessellate True v of Inl e \<Rightarrow> False | Inr v' \<Rightarrow> inBounds v' 1 1)"
    by code_simp
  then obtain v v' where a: "Initialize (\<lambda>k. 0) 2 2 1 = Inr v" "Tessellate True v = Inr v'"
    "inBounds v' 1 1"
    by (auto split: sum.splits)
  have h: "(0::int) < 2" "(1::int) \<le> 2 * 2" "(0::int) \<le> 2 * 2" "(0::int) < 1" by simp_all
  note th = every_cell_assigned_at_completion [OF h(1) h(1) h(2) a(1)]
  have b: "activeSeeds v' = []"
    "\<exists>p s. cellAt v' 1 1 = Some p \<and> s \<in> set (seeds v') \<and> Color p = Color s"
    using th a(2,3) h(4) by blast+
  have "case Initialize (\<lambda>k. 0) 2 2 0 of Inl e \<Rightarrow> False | Inr v \<Rightarrow> True" by code_simp
  then obtain v0 where c: "Initialize (\<lambda>k. 0) 2 2 0 = Inr v0" by (auto split: sum.splits)
  note th0 = every_cell_assigned_at_completion [OF h(1) h(1) h(3) c]
  have d: "steps [True, False] v0 = Inr v0" "cellAt v0 1 1 = None" using th0 by blast+
  show ?thesis
    by (intro conjI exI [of _ v] exI [of _ v'] exI [of _ v0] a b c d)
qed

section \<open>What the export holds\<close>

text \<open>The four bytes of the buffer at the byte offset of pixel \<open>(x, y)\<close>.\<close>

definition pixelOf :: "8 word list \<Rightarrow> int \<Rightarrow> int \<Rightarrow> int \<Rightarrow> 8 word list" where
  "pixelOf pixels w x y = take 4 (drop (nat ((y * w + x) * 4)) pixels)"

text \<open>The colour of a cell as four bytes; transparent black when it has none.\<close>

definition cellColor :: "Voronoi \<Rightarrow> int \<Rightarrow> int \<Rightarrow> 8 word list" where
  "cellColor v x y =
     (case cellAt v x y of None \<Rightarrow> [0, 0, 0, 0]
      | Some p \<Rightarrow> (case Color p of None \<Rightarrow> [0, 0, 0, 0] | Some c \<Rightarrow> [R c, G c, B c, A c]))"

lemma writePixel_eq:
  assumes "0 \<le> pos" "pos + 3 < int (length px)"
  shows "writePixel px pos r g b a =
     Inr (px[nat pos := r, nat pos + 1 := g, nat pos + 2 := b, nat pos + 3 := a])"
proof -
  have "nat (pos + 1) = nat pos + 1" "nat (pos + 2) = nat pos + 2" "nat (pos + 3) = nat pos + 3"
    using assms(1) by (simp_all add: nat_add_distrib)
  then show ?thesis using assms by (simp add: writePixel_def store_def)
qed

lemma take4_written:
  assumes "n + 3 < length px"
  shows "take 4 (drop n (px[n := r, n + 1 := g, n + 2 := b, n + 3 := a])) = [r, g, b, a]"
proof (rule nth_equalityI)
  show "length (take 4 (drop n (px[n := r, n + 1 := g, n + 2 := b, n + 3 := a]))) = length [r, g, b, a]"
    using assms by simp
next
  fix i assume "i < length (take 4 (drop n (px[n := r, n + 1 := g, n + 2 := b, n + 3 := a])))"
  then have "i < 4" by simp
  then consider "i = 0" | "i = 1" | "i = 2" | "i = 3" by linarith
  then show "take 4 (drop n (px[n := r, n + 1 := g, n + 2 := b, n + 3 := a])) ! i = [r, g, b, a] ! i"
    using assms by cases (simp_all add: nth_list_update)
qed

lemma take4_elsewhere:
  assumes "m + 4 \<le> n \<or> n + 4 \<le> m"
  shows "take 4 (drop m (px[n := r, n + 1 := g, n + 2 := b, n + 3 := a])) = take 4 (drop m px)"
proof (rule nth_equalityI)
  show "length (take 4 (drop m (px[n := r, n + 1 := g, n + 2 := b, n + 3 := a]))) =
      length (take 4 (drop m px))"
    by simp
next
  fix i assume "i < length (take 4 (drop m (px[n := r, n + 1 := g, n + 2 := b, n + 3 := a])))"
  then have i: "i < 4" "m + i < length px" by auto
  then have "m + i \<noteq> n" "m + i \<noteq> n + 1" "m + i \<noteq> n + 2" "m + i \<noteq> n + 3"
    using assms by linarith+
  then show "take 4 (drop m (px[n := r, n + 1 := g, n + 2 := b, n + 3 := a])) ! i =
      take 4 (drop m px) ! i"
    using i by (simp add: nth_list_update)
qed

lemma cell_index_bounds:
  fixes x y w h :: int
  assumes "0 \<le> x" "x < w" "0 \<le> y" "y < h"
  shows "0 \<le> (y * w + x) * 4" and "(y * w + x) * 4 + 3 < w * h * 4"
proof -
  have "0 \<le> y * w" using assms by simp
  then show "0 \<le> (y * w + x) * 4" using assms by simp
  have "y + 1 \<le> h" using assms by simp
  then have "(y + 1) * w \<le> h * w" using assms by (intro mult_right_mono) simp_all
  then have "y * w + x < h * w" using assms by (simp add: algebra_simps)
  then show "(y * w + x) * 4 + 3 < w * h * 4" by (simp add: mult.commute)
qed

lemma cell_index_distinct:
  fixes x y i j w :: int
  assumes "0 \<le> x" "x < w" "0 \<le> i" "i < w" "(x, y) \<noteq> (i, j)"
  shows "(y * w + x) * 4 + 4 \<le> (j * w + i) * 4 \<or> (j * w + i) * 4 + 4 \<le> (y * w + x) * 4"
proof -
  have "y * w + x \<noteq> j * w + i"
  proof
    assume e: "y * w + x = j * w + i"
    have "(y * w + x) div w = y" "(j * w + i) div w = j"
      using assms by simp_all
    then have "y = j" using e by simp
    then show False using e assms(5) by simp
  qed
  then have "y * w + x < j * w + i \<or> j * w + i < y * w + x" by linarith
  then show ?thesis by auto
qed

lemma writePixel_cell:
  assumes len: "length px = nat (width v * height v * 4)" and ib: "inBounds v i j"
  shows "\<exists>px'. writePixel px ((j * width v + i) * 4) r g b a = Inr px' \<and>
     length px' = length px \<and>
     pixelOf px' (width v) i j = [r, g, b, a] \<and>
     (\<forall>x y. inBounds v x y \<and> (x, y) \<noteq> (i, j) \<longrightarrow>
        pixelOf px' (width v) x y = pixelOf px (width v) x y)"
proof -
  let ?w = "width v" and ?pos = "(j * width v + i) * 4"
  let ?px' = "px[nat ?pos := r, nat ?pos + 1 := g, nat ?pos + 2 := b, nat ?pos + 3 := a]"
  have b: "0 \<le> ?pos" "?pos + 3 < ?w * height v * 4"
    using cell_index_bounds [of i ?w j "height v"] ib by (simp_all add: inBounds_def)
  then have b': "?pos + 3 < int (length px)" using len by simp
  have w: "writePixel px ?pos r g b a = Inr ?px'" by (rule writePixel_eq [OF b(1) b'])
  have n: "nat ?pos + 3 < length px" using b(1) b' by linarith
  have here: "pixelOf ?px' ?w i j = [r, g, b, a]"
    unfolding pixelOf_def by (rule take4_written [OF n])
  have there: "pixelOf ?px' ?w x y = pixelOf px ?w x y"
    if "inBounds v x y \<and> (x, y) \<noteq> (i, j)" for x y
  proof -
    have "(y * ?w + x) * 4 + 4 \<le> ?pos \<or> ?pos + 4 \<le> (y * ?w + x) * 4"
      using cell_index_distinct [of x ?w i y j] that ib by (simp add: inBounds_def)
    moreover have "0 \<le> (y * ?w + x) * 4"
      using cell_index_bounds(1) [of x ?w y "height v"] that by (simp add: inBounds_def)
    ultimately have "nat ((y * ?w + x) * 4) + 4 \<le> nat ?pos \<or> nat ?pos + 4 \<le> nat ((y * ?w + x) * 4)"
      using b(1) by linarith
    then show ?thesis unfolding pixelOf_def by (rule take4_elsewhere)
  qed
  show ?thesis using w here there by simp
qed

lemma pixelStep_cell:
  assumes "validGrid v" and len: "length px = nat (width v * height v * 4)" and ib: "inBounds v i j"
  shows "\<exists>px'. pixelStep v i j px = Inr px' \<and> length px' = length px \<and>
     pixelOf px' (width v) i j = cellColor v i j \<and>
     (\<forall>x y. inBounds v x y \<and> (x, y) \<noteq> (i, j) \<longrightarrow>
        pixelOf px' (width v) x y = pixelOf px (width v) x y)"
proof (cases "cellAt v i j")
  case None
  then show ?thesis
    using writePixel_cell [OF len ib, of 0 0 0 0]
    by (simp add: pixelStep_def validGrid_index2 [OF assms(1) ib] cellColor_def)
next
  case (Some p)
  show ?thesis
  proof (cases "Color p")
    case None
    then show ?thesis
      using Some writePixel_cell [OF len ib, of 0 0 0 0]
      by (simp add: pixelStep_def validGrid_index2 [OF assms(1) ib] cellColor_def)
  next
    case c: (Some c)
    then show ?thesis
      using Some writePixel_cell [OF len ib, of "R c" "G c" "B c" "A c"]
      by (simp add: pixelStep_def validGrid_index2 [OF assms(1) ib] cellColor_def)
  qed
qed

text \<open>A loop whose every step writes one pixel, given by the key of the element.\<close>

lemma foldE_pixels:
  fixes key :: "'a \<Rightarrow> int \<times> int" and val :: "int \<times> int \<Rightarrow> 8 word list"
  assumes "length px = n"
    and "\<And>c q. c \<in> set cs \<Longrightarrow> length q = n \<Longrightarrow>
          \<exists>q'. f c q = Inr q' \<and> length q' = length q \<and>
            pixelOf q' w (fst (key c)) (snd (key c)) = val (key c) \<and>
            (\<forall>x y. good x y \<and> (x, y) \<noteq> key c \<longrightarrow> pixelOf q' w x y = pixelOf q w x y)"
  shows "\<exists>px'. foldE f cs px = Inr px' \<and> length px' = n \<and>
     (\<forall>x y. good x y \<longrightarrow>
        pixelOf px' w x y = (if (x, y) \<in> key ` set cs then val (x, y) else pixelOf px w x y))"
  using assms
proof (induction cs arbitrary: px rule: rev_induct)
  case Nil
  then show ?case by simp
next
  case (snoc c cs)
  have "\<exists>px'. foldE f cs px = Inr px' \<and> length px' = n \<and>
     (\<forall>x y. good x y \<longrightarrow>
        pixelOf px' w x y = (if (x, y) \<in> key ` set cs then val (x, y) else pixelOf px w x y))"
    by (rule snoc.IH [OF snoc.prems(1)]) (use snoc.prems(2) in simp)
  then obtain q where q: "foldE f cs px = Inr q" "length q = n"
    "\<forall>x y. good x y \<longrightarrow>
        pixelOf q w x y = (if (x, y) \<in> key ` set cs then val (x, y) else pixelOf px w x y)"
    by blast
  from snoc.prems(2) [of c q] q(2)
  obtain q' where q': "f c q = Inr q'" "length q' = n"
    "pixelOf q' w (fst (key c)) (snd (key c)) = val (key c)"
    "\<forall>x y. good x y \<and> (x, y) \<noteq> key c \<longrightarrow> pixelOf q' w x y = pixelOf q w x y"
    by auto
  have "pixelOf q' w x y = (if (x, y) \<in> key ` set (cs @ [c]) then val (x, y) else pixelOf px w x y)"
    if g: "good x y" for x y
  proof (cases "(x, y) = key c")
    case True
    then show ?thesis using q'(3) by (metis fst_conv snd_conv image_eqI in_set_conv_decomp)
  next
    case False
    then have "pixelOf q' w x y = pixelOf q w x y" using q'(4) g by blast
    then show ?thesis using q(3) g False by auto
  qed
  then show ?case using q(1) q'(1,2) by (simp add: foldE_snoc)
qed

lemma foldE_map: "foldE f (map g xs) s = foldE (\<lambda>x. f (g x)) xs s"
  by (induction xs arbitrary: s) (simp_all split: sum.splits)

lemma foldE_nested:
  "foldE (\<lambda>i. foldE (g i) ys) xs s = foldE (\<lambda>c. g (fst c) (snd c)) (List.product xs ys) s"
proof (induction xs arbitrary: s)
  case Nil
  then show ?case by simp
next
  case (Cons x xs)
  show ?case
    by (simp add: foldE_append foldE_map Cons.IH split: sum.splits)
qed

lemma set_loopRange: "set (loopRange n) = {k. 0 \<le> k \<and> k < n}"
proof -
  have "set (loopRange n) = int ` {0..<nat n}" by (simp add: loopRange_def)
  also have "\<dots> = {k. 0 \<le> k \<and> k < n}"
  proof (intro set_eqI iffI)
    fix k assume "k \<in> int ` {0..<nat n}"
    then show "k \<in> {k. 0 \<le> k \<and> k < n}" by auto
  next
    fix k assume "k \<in> {k. 0 \<le> k \<and> k < n}"
    then have "nat k \<in> {0..<nat n}" "k = int (nat k)" by auto
    then show "k \<in> int ` {0..<nat n}" by (rule_tac image_eqI)
  qed
  finally show ?thesis .
qed

lemma ToPixels_cells:
  assumes "validGrid v" "0 \<le> width v" "0 \<le> height v"
    and len: "length px = nat (width v * height v * 4)"
  shows "\<exists>px'. foldE (\<lambda>i. foldE (pixelStep v i) (loopRange (height v))) (loopRange (width v)) px = Inr px' \<and>
     length px' = nat (width v * height v * 4) \<and>
     (\<forall>x y. inBounds v x y \<longrightarrow> pixelOf px' (width v) x y = cellColor v x y)"
proof -
  let ?cs = "List.product (loopRange (width v)) (loopRange (height v))"
  have cs: "set ?cs = {(x, y). inBounds v x y}"
    by (auto simp: set_loopRange inBounds_def)
  have "\<exists>px'. foldE (\<lambda>c. pixelStep v (fst c) (snd c)) ?cs px = Inr px' \<and>
     length px' = nat (width v * height v * 4) \<and>
     (\<forall>x y. inBounds v x y \<longrightarrow>
        pixelOf px' (width v) x y =
          (if (x, y) \<in> (\<lambda>c. c) ` set ?cs then (\<lambda>k. cellColor v (fst k) (snd k)) (x, y)
           else pixelOf px (width v) x y))"
  proof (rule foldE_pixels [OF len])
    fix c and q :: "8 word list"
    assume c: "c \<in> set ?cs" and q: "length q = nat (width v * height v * 4)"
    have ib: "inBounds v (fst c) (snd c)" using c cs by auto
    from pixelStep_cell [OF assms(1) q ib]
    show "\<exists>q'. pixelStep v (fst c) (snd c) q = Inr q' \<and> length q' = length q \<and>
        pixelOf q' (width v) (fst c) (snd c) = cellColor v (fst c) (snd c) \<and>
        (\<forall>x y. inBounds v x y \<and> (x, y) \<noteq> c \<longrightarrow> pixelOf q' (width v) x y = pixelOf q (width v) x y)"
      by (metis prod.collapse)
  qed
  then obtain px' where px': "foldE (\<lambda>c. pixelStep v (fst c) (snd c)) ?cs px = Inr px'"
    "length px' = nat (width v * height v * 4)"
    "\<forall>x y. inBounds v x y \<longrightarrow>
        pixelOf px' (width v) x y =
          (if (x, y) \<in> (\<lambda>c. c) ` set ?cs then (\<lambda>k. cellColor v (fst k) (snd k)) (x, y)
           else pixelOf px (width v) x y)"
    by blast
  have "pixelOf px' (width v) x y = cellColor v x y" if ib: "inBounds v x y" for x y
  proof -
    have "(x, y) \<in> (\<lambda>c. c) ` set ?cs" using ib cs by simp
    then show ?thesis using px'(3) ib by simp
  qed
  then show ?thesis using px'(1,2) by (simp add: foldE_nested)
qed

lemma ToPixels_seeds:
  assumes seeds: "\<forall>s \<in> set ss. inBounds v (X s) (Y s)"
    and len: "length px = nat (width v * height v * 4)"
  shows "\<exists>px'. foldE (seedPixelStep v) ss px = Inr px' \<and>
     length px' = nat (width v * height v * 4) \<and>
     (\<forall>x y. inBounds v x y \<longrightarrow>
        pixelOf px' (width v) x y =
          (if (x, y) \<in> (\<lambda>s. (X s, Y s)) ` set ss then [0, 0, 0, 0] else pixelOf px (width v) x y))"
proof (rule foldE_pixels [OF len, where val = "\<lambda>k. [0, 0, 0, 0]"])
  fix s and q :: "8 word list"
  assume s: "s \<in> set ss" and q: "length q = nat (width v * height v * 4)"
  have ib: "inBounds v (X s) (Y s)" using s seeds by blast
  from writePixel_cell [OF q ib, of 0 0 0 0]
  show "\<exists>q'. seedPixelStep v s q = Inr q' \<and> length q' = length q \<and>
      pixelOf q' (width v) (fst (X s, Y s)) (snd (X s, Y s)) = [0, 0, 0, 0] \<and>
      (\<forall>x y. inBounds v x y \<and> (x, y) \<noteq> (X s, Y s) \<longrightarrow>
         pixelOf q' (width v) x y = pixelOf q (width v) x y)"
    by (simp add: seedPixelStep_def)
qed

text \<open>
  Claim C9. For a valid engine state whose seeds lie on the grid, \<open>ToPixels\<close> does not
  fail; it returns \<open>width * height * 4\<close> bytes, and the four bytes at offset
  \<open>(y * width + x) * 4\<close> are: zero when a seed sits at \<open>(x, y)\<close>, whatever colour
  the cell has; otherwise the R, G, B, A of the cell's colour, and zero when the cell is
  unassigned.
\<close>

theorem ToPixels_layout:
  assumes "validGrid v" and "0 \<le> width v" and "0 \<le> height v"
    and "\<forall>s \<in> set (seeds v). inBounds v (X s) (Y s)"
  shows "\<exists>pixels. ToPixels v = Inr pixels \<and>
     length pixels = nat (width v * height v * 4) \<and>
     (\<forall>x y. inBounds v x y \<longrightarrow>
        take 4 (drop (nat ((y * width v + x) * 4)) pixels) =
          (if \<exists>s \<in> set (seeds v). X s = x \<and> Y s = y then [0, 0, 0, 0]
           else (case cellAt v x y of
                   None \<Rightarrow> [0, 0, 0, 0]
                 | Some p \<Rightarrow>
                     (case Color p of None \<Rightarrow> [0, 0, 0, 0]
                      | Some c \<Rightarrow> [R c, G c, B c, A c]))))"
proof -
  let ?n = "width v * height v * 4"
  have n: "0 \<le> ?n" using assms(2,3) by simp
  have mk: "make ?n (0 :: 8 word) = Inr (replicate (nat ?n) 0)" using n by (simp add: make_def)
  from ToPixels_cells [OF assms(1-3), of "replicate (nat ?n) 0"]
  obtain px1 where px1:
    "foldE (\<lambda>i. foldE (pixelStep v i) (loopRange (height v))) (loopRange (width v))
       (replicate (nat ?n) 0) = Inr px1"
    "length px1 = nat ?n"
    "\<forall>x y. inBounds v x y \<longrightarrow> pixelOf px1 (width v) x y = cellColor v x y"
    by auto
  from ToPixels_seeds [OF assms(4) px1(2)]
  obtain px2 where px2: "foldE (seedPixelStep v) (seeds v) px1 = Inr px2" "length px2 = nat ?n"
    "\<forall>x y. inBounds v x y \<longrightarrow>
        pixelOf px2 (width v) x y =
          (if (x, y) \<in> (\<lambda>s. (X s, Y s)) ` set (seeds v) then [0, 0, 0, 0]
           else pixelOf px1 (width v) x y)"
    by blast
  have run: "ToPixels v = Inr px2" by (simp add: ToPixels_def mk px1(1) px2(1))
  have "take 4 (drop (nat ((y * width v + x) * 4)) px2) =
      (if \<exists>s \<in> set (seeds v). X s = x \<and> Y s = y then [0, 0, 0, 0]
       else (case cellAt v x y of
               None \<Rightarrow> [0, 0, 0, 0]
             | Some p \<Rightarrow>
                 (case Color p of None \<Rightarrow> [0, 0, 0, 0] | Some c \<Rightarrow> [R c, G c, B c, A c])))"
    if ib: "inBounds v x y" for x y
  proof -
    have e: "(x, y) \<in> (\<lambda>s. (X s, Y s)) ` set (seeds v) \<longleftrightarrow> (\<exists>s \<in> set (seeds v). X s = x \<and> Y s = y)"
      by auto
    have "take 4 (drop (nat ((y * width v + x) * 4)) px2) = pixelOf px2 (width v) x y"
      by (simp only: pixelOf_def)
    also have "\<dots> = (if (x, y) \<in> (\<lambda>s. (X s, Y s)) ` set (seeds v) then [0, 0, 0, 0]
           else pixelOf px1 (width v) x y)"
      using px2(3) ib by blast
    also have "\<dots> = (if \<exists>s \<in> set (seeds v). X s = x \<and> Y s = y then [0, 0, 0, 0]
           else cellColor v x y)"
    proof -
      have "pixelOf px1 (width v) x y = cellColor v x y" using px1(3) ib by blast
      then show ?thesis by (simp only: e)
    qed
    finally show ?thesis by (simp only: cellColor_def)
  qed
  then show ?thesis using run px2(2) by blast
qed

theorem ToPixels_layout_witness:
  "\<exists>v'. steps [False] demoEngine = Inr v' \<and> validGrid v' \<and>
      ToPixels v' = Inr [0, 0, 0, 0, 1, 2, 3, 4, 1, 2, 3, 4, 0, 0, 0, 0] \<and>
      (\<exists>pixels. ToPixels v' = Inr pixels \<and> length pixels = 16 \<and>
         take 4 (drop 4 pixels) = [1, 2, 3, 4] \<and> take 4 (drop 0 pixels) = [0, 0, 0, 0])"
proof -
  have "case steps [False] demoEngine of Inl e \<Rightarrow> False
        | Inr v' \<Rightarrow> validGrid v' \<and> width v' = 2 \<and> height v' = 2 \<and> seeds v' = [demoSeed] \<and>
            cellAt v' 1 0 = Some \<lparr>X = 1, Y = 0, Distance = Some 1, Color = Color demoSeed\<rparr> \<and>
            ToPixels v' = Inr [0, 0, 0, 0, 1, 2, 3, 4, 1, 2, 3, 4, 0, 0, 0, 0]"
    by code_simp
  then obtain v' where v': "steps [False] demoEngine = Inr v'" "validGrid v'" "width v' = 2"
    "height v' = 2" "seeds v' = [demoSeed]"
    "cellAt v' 1 0 = Some \<lparr>X = 1, Y = 0, Distance = Some 1, Color = Color demoSeed\<rparr>"
    "ToPixels v' = Inr [0, 0, 0, 0, 1, 2, 3, 4, 1, 2, 3, 4, 0, 0, 0, 0]"
    by (cases "steps [False] demoEngine") auto
  have s: "\<forall>s \<in> set (seeds v'). inBounds v' (X s) (Y s)"
    by (simp add: v' inBounds_def demoSeed_def)
  from ToPixels_layout [OF v'(2) _ _ s]
  obtain pixels where p: "ToPixels v' = Inr pixels" "length pixels = nat (width v' * height v' * 4)"
    "\<forall>x y. inBounds v' x y \<longrightarrow>
        take 4 (drop (nat ((y * width v' + x) * 4)) pixels) =
          (if \<exists>s \<in> set (seeds v'). X s = x \<and> Y s = y then [0, 0, 0, 0]
           else (case cellAt v' x y of
                   None \<Rightarrow> [0, 0, 0, 0]
                 | Some p \<Rightarrow>
                     (case Color p of None \<Rightarrow> [0, 0, 0, 0]
                      | Some c \<Rightarrow> [R c, G c, B c, A c])))"
    using v'(3,4) by auto
  have "inBounds v' 1 0" "inBounds v' 0 0" by (simp_all add: inBounds_def v')
  then have "take 4 (drop 4 pixels) = [1, 2, 3, 4]" "take 4 (drop 0 pixels) = [0, 0, 0, 0]"
    using p(3) [rule_format, of 1 0] p(3) [rule_format, of 0 0]
    by (simp_all add: v' demoSeed_def)
  moreover have "length pixels = 16" using p(2) by (simp add: v')
  ultimately show ?thesis using v'(1,2,7) p(1) by blast
qed

section \<open>Grids on which the distance table suffices\<close>

lemma assignPointToSeed_total:
  assumes "validGrid v"
  shows "\<exists>b v'. assignPointToSeed v seed distance dx dy = Inr (b, v') \<and> validGrid v' \<and>
     sameButDiagram v v'"
proof (cases "inBounds v (X seed + dx) (Y seed + dy)")
  case False
  then have "assignPointToSeed v seed distance dx dy = Inr (False, v)"
    by (rule assignPointToSeed_outside)
  then show ?thesis using assms by auto
next
  case True
  have "validGrid (setCell v (X seed + dx) (Y seed + dy)
      (Some (claimed seed distance (X seed + dx) (Y seed + dy))))"
    by (rule validGrid_setCell [OF assms True]) (simp add: claimed_def)
  then show ?thesis
    using assms by (auto simp: assignPointToSeed_inside [OF assms True] sameButDiagram_def
        split: option.splits)
qed

lemma claimStep_total:
  assumes "validGrid (snd st)"
  shows "\<exists>st'. claimStep seed distance off st = Inr st' \<and> validGrid (snd st') \<and>
     sameButDiagram (snd st) (snd st')"
  using assignPointToSeed_total [OF assms, of seed distance "fst off" "snd off"]
  by (auto simp: claimStep_def)

lemma assignPointsToSeed_total:
  assumes "validGrid v"
  shows "\<exists>b v'. assignPointsToSeed v seed distance dx dy = Inr (b, v') \<and> validGrid v' \<and>
     sameButDiagram v v'"
proof -
  have "\<exists>st'. foldE (claimStep seed distance) (reflections dx dy) (False, v) = Inr st' \<and>
      (validGrid (snd st') \<and> sameButDiagram v (snd st'))"
  proof (rule foldE_total [where P = "\<lambda>t. validGrid (snd t) \<and> sameButDiagram v (snd t)"])
    show "validGrid (snd (False, v)) \<and> sameButDiagram v (snd (False, v))" using assms by simp
  next
    fix off and t :: "bool \<times> Voronoi"
    assume "validGrid (snd t) \<and> sameButDiagram v (snd t)"
    then show "\<exists>t'. claimStep seed distance off t = Inr t' \<and>
        validGrid (snd t') \<and> sameButDiagram v (snd t')"
      using claimStep_total [of t seed distance off] by (blast intro: sameButDiagram_trans)
  qed
  then show ?thesis by (auto simp: assignPointsToSeed_def)
qed

lemma distanceStep_total:
  assumes "validGrid (snd st)" "distances (snd st) = distanceTable w h"
    and "0 \<le> X pt" "X pt \<le> 2 * w" "0 \<le> Y pt" "Y pt \<le> 2 * h"
  shows "\<exists>st'. distanceStep seed pt st = Inr st' \<and> validGrid (snd st') \<and>
     sameButDiagram (snd st) (snd st')"
proof -
  have "index2 (distances (snd st)) (X pt) (Y pt) = Inr (X pt * X pt + Y pt * Y pt)"
    using assms by (simp add: index2_distanceTable)
  then show ?thesis
    using assignPointsToSeed_total [OF assms(1), of seed "X pt * X pt + Y pt * Y pt" "X pt" "Y pt"]
    by (auto simp: distanceStep_def)
qed

lemma seedStep_total:
  assumes "validGrid (snd st)" "distances (snd st) = distanceTable w h"
    and "\<forall>pt \<in> set prox. 0 \<le> X pt \<and> X pt \<le> 2 * w \<and> 0 \<le> Y pt \<and> Y pt \<le> 2 * h"
  shows "\<exists>st'. seedStep prox seed st = Inr st' \<and> validGrid (snd st') \<and>
     sameButDiagram (snd st) (snd st')"
proof -
  have "\<exists>t'. foldE (distanceStep seed) prox (False, snd st) = Inr t' \<and>
      (validGrid (snd t') \<and> sameButDiagram (snd st) (snd t'))"
  proof (rule foldE_total [where P = "\<lambda>t. validGrid (snd t) \<and> sameButDiagram (snd st) (snd t)"])
    show "validGrid (snd (False, snd st)) \<and> sameButDiagram (snd st) (snd (False, snd st))"
      using assms(1) by simp
  next
    fix pt and t :: "bool \<times> Voronoi"
    assume pt: "pt \<in> set prox" and t: "validGrid (snd t) \<and> sameButDiagram (snd st) (snd t)"
    then have d: "distances (snd t) = distanceTable w h"
      using assms(2) by (simp add: sameButDiagram_def)
    have "\<exists>t'. distanceStep seed pt t = Inr t' \<and> validGrid (snd t') \<and>
        sameButDiagram (snd t) (snd t')"
      by (rule distanceStep_total [OF _ d]) (use t pt assms(3) in auto)
    then show "\<exists>t'. distanceStep seed pt t = Inr t' \<and>
        validGrid (snd t') \<and> sameButDiagram (snd st) (snd t')"
      using t by (blast intro: sameButDiagram_trans)
  qed
  then show ?thesis by (auto simp: seedStep_def)
qed

lemma tessellateRing_total:
  assumes "validGrid v" "distances v = distanceTable (width v) (height v)"
    and "radius v + 1 \<le> 2 * height v" "radius v + 1 \<le> 4 * width v + 1"
  shows "\<exists>v'. tessellateRing v = Inr v'"
proof -
  let ?v1 = "v\<lparr>radius := radius v + 1\<rparr>"
  let ?prox = "proximityLoop 0 (radius v + 1) []"
  have prox: "\<forall>pt \<in> set ?prox. 0 \<le> X pt \<and> X pt \<le> 2 * width v \<and> 0 \<le> Y pt \<and> Y pt \<le> 2 * height v"
    using assms(3,4) by (auto simp: set_proximityLoop)
  have "\<exists>st'. foldE (seedStep ?prox) (activeSeeds ?v1) ([], ?v1) = Inr st' \<and>
      (validGrid (snd st') \<and> sameButDiagram ?v1 (snd st'))"
  proof (rule foldE_total [where P = "\<lambda>t. validGrid (snd t) \<and> sameButDiagram ?v1 (snd t)"])
    show "validGrid (snd ([], ?v1)) \<and> sameButDiagram ?v1 (snd ([], ?v1))" using assms(1) by simp
  next
    fix seed and t :: "Point list \<times> Voronoi"
    assume t: "validGrid (snd t) \<and> sameButDiagram ?v1 (snd t)"
    then have d: "distances (snd t) = distanceTable (width v) (height v)"
      using assms(2) by (simp add: sameButDiagram_def)
    have "\<exists>t'. seedStep ?prox seed t = Inr t' \<and> validGrid (snd t') \<and>
        sameButDiagram (snd t) (snd t')"
      by (rule seedStep_total [OF _ d prox]) (use t in simp)
    then show "\<exists>t'. seedStep ?prox seed t = Inr t' \<and>
        validGrid (snd t') \<and> sameButDiagram ?v1 (snd t')"
      using t by (blast intro: sameButDiagram_trans)
  qed
  then show ?thesis
    by (auto simp: tessellateRing_def getProximityDistances_def Let_def)
qed

text \<open>Beyond the diameter of the grid every target is off the grid, and every seed is dropped.\<close>

lemma reflectionAttempts_outside:
  assumes "reflectionAttempts seed distance offs v = Inr (log, v')"
    and "\<forall>off \<in> set offs. \<not> inBounds v (X seed + fst off) (Y seed + snd off)"
  shows "True \<notin> snd ` set log \<and> v' = v"
  using assms
proof (induction offs arbitrary: log)
  case Nil
  then show ?case by simp
next
  case (Cons off offs)
  have o: "assignPointToSeed v seed distance (fst off) (snd off) = Inr (False, v)"
    using Cons.prems(2) by (simp add: assignPointToSeed_outside)
  from Cons.prems(1) obtain log1 where r: "reflectionAttempts seed distance offs v = Inr (log1, v')"
    and log: "log = (off, False) # log1"
    by (auto simp: o split: sum.splits)
  show ?case using Cons.IH [OF r] Cons.prems(2) log by simp
qed

lemma seedAttempts_outside:
  assumes "seedAttempts seed prox v = Inr (log, v')"
    and "\<forall>off \<in> set (ringOffsets prox). \<not> inBounds v (X seed + fst off) (Y seed + snd off)"
  shows "True \<notin> snd ` set log \<and> v' = v"
  using assms
proof (induction prox arbitrary: log)
  case Nil
  then show ?case by simp
next
  case (Cons pt prox)
  from Cons.prems(1) obtain d l1 v1 l2 where
    a: "reflectionAttempts seed d (reflections (X pt) (Y pt)) v = Inr (l1, v1)"
    and b: "seedAttempts seed prox v1 = Inr (l2, v')" and log: "log = l1 @ l2"
    by (auto split: sum.splits)
  have 1: "True \<notin> snd ` set l1 \<and> v1 = v"
    by (rule reflectionAttempts_outside [OF a]) (use Cons.prems(2) in \<open>simp add: ringOffsets_def\<close>)
  have 2: "True \<notin> snd ` set l2 \<and> v' = v"
    by (rule Cons.IH) (use b 1 Cons.prems(2) in \<open>simp_all add: ringOffsets_def\<close>)
  show ?case using 1 2 log by auto
qed

lemma ringAttempts_outside:
  assumes "ringAttempts prox ss v = Inr (logs, v')"
    and "\<forall>s \<in> set ss. \<forall>off \<in> set (ringOffsets prox).
           \<not> inBounds v (X s + fst off) (Y s + snd off)"
  shows "successful logs = [] \<and> v' = v"
  using assms
proof (induction ss arbitrary: logs)
  case Nil
  then show ?case by simp
next
  case (Cons s ss)
  from Cons.prems(1) obtain log v1 logs1 where
    a: "seedAttempts s prox v = Inr (log, v1)"
    and b: "ringAttempts prox ss v1 = Inr (logs1, v')" and logs: "logs = (s, map snd log) # logs1"
    by (auto split: sum.splits)
  have 1: "True \<notin> snd ` set log \<and> v1 = v"
    by (rule seedAttempts_outside [OF a]) (use Cons.prems(2) in simp)
  have 2: "successful logs1 = [] \<and> v' = v"
    by (rule Cons.IH) (use b 1 Cons.prems(2) in simp_all)
  show ?case using 1 2 logs by simp
qed

lemma beyond_diameter:
  assumes "inBounds v x y" "\<bar>dx\<bar> + \<bar>dy\<bar> > width v + height v - 2"
  shows "\<not> inBounds v (x + dx) (y + dy)"
  using assms unfolding inBounds_def by linarith

lemma tessellateRing_drops_all:
  assumes "tessellateRing v = Inr v'"
    and "\<forall>s \<in> set (activeSeeds v). inBounds v (X s) (Y s)"
    and "radius v + 1 > width v + height v - 2"
  shows "activeSeeds v' = []"
proof -
  let ?v1 = "snd (getProximityDistances v)"
  let ?prox = "fst (getProximityDistances v)"
  from assms(1) obtain logs v2 where
    a: "ringAttempts ?prox (activeSeeds v) ?v1 = Inr (logs, v2)"
    and v': "v' = v2\<lparr>activeSeeds := successful logs\<rparr>"
    by (auto simp: tessellateRing_logged split: sum.splits)
  have prox: "?prox = proximityLoop 0 (radius v + 1) []"
    by (simp add: getProximityDistances_def Let_def)
  have "\<forall>s \<in> set (activeSeeds v). \<forall>off \<in> set (ringOffsets ?prox).
      \<not> inBounds ?v1 (X s + fst off) (Y s + snd off)"
  proof (intro ballI)
    fix s off assume s: "s \<in> set (activeSeeds v)" and off: "off \<in> set (ringOffsets ?prox)"
    have "\<bar>fst off\<bar> + \<bar>snd off\<bar> = radius v + 1"
      using off unfolding prox ringOffsets_diamond by auto
    then have "\<not> inBounds v (X s + fst off) (Y s + snd off)"
      using beyond_diameter [of v "X s" "Y s" "fst off" "snd off"] assms(2,3) s by simp
    then show "\<not> inBounds ?v1 (X s + fst off) (Y s + snd off)"
      by (simp add: inBounds_def getProximityDistances_def Let_def)
  qed
  from ringAttempts_outside [OF a this] show ?thesis by (simp add: v')
qed

text \<open>
  An engine on which the table suffices: the table is the one \<open>initDistances\<close> builds, the
  active seeds are on the grid, a seed is only active while the radius is below the
  diameter of the grid, and the grid is neither much wider than high nor much higher than
  wide.
\<close>

definition safeEngine :: "Voronoi \<Rightarrow> bool" where
  "safeEngine v =
     (validGrid v \<and> distances v = distanceTable (width v) (height v) \<and>
      (\<forall>s \<in> set (activeSeeds v). inBounds v (X s) (Y s)) \<and>
      (activeSeeds v \<noteq> [] \<longrightarrow> 0 \<le> radius v \<and> radius v \<le> width v + height v - 2) \<and>
      width v \<le> height v + 1 \<and> height v \<le> 3 * width v + 2)"

lemma safeEngine_ring:
  assumes "safeEngine v" "activeSeeds v \<noteq> []"
  shows "\<exists>v'. tessellateRing v = Inr v' \<and> safeEngine v' \<and> radius v' = radius v + 1"
proof -
  have s: "validGrid v" "distances v = distanceTable (width v) (height v)"
    "\<forall>s \<in> set (activeSeeds v). inBounds v (X s) (Y s)"
    "0 \<le> radius v" "radius v \<le> width v + height v - 2"
    "width v \<le> height v + 1" "height v \<le> 3 * width v + 2"
    using assms by (simp_all add: safeEngine_def)
  have "\<exists>v'. tessellateRing v = Inr v'"
    by (rule tessellateRing_total [OF s(1,2)]) (use s(5-7) in linarith)+
  then obtain v' where ring: "tessellateRing v = Inr v'" by blast
  note fr = tessellateRing_frame [OF ring]
  note sm = tessellateRing_summary [OF s(1) ring]
  have ib: "inBounds v' x y = inBounds v x y" for x y using fr by (simp add: inBounds_def)
  have "safeEngine v'"
    unfolding safeEngine_def
  proof (intro conjI ballI impI)
    show "validGrid v'" by (rule sm(1))
    show "distances v' = distanceTable (width v') (height v')" using fr s(2) by simp
    show "width v' \<le> height v' + 1" "height v' \<le> 3 * width v' + 2" using fr s(6,7) by simp_all
  next
    fix t assume "t \<in> set (activeSeeds v')"
    then show "inBounds v' (X t) (Y t)" using sm(3) s(3) ib by blast
  next
    assume a: "activeSeeds v' \<noteq> []"
    show "0 \<le> radius v'" using fr s(4) by simp
    have "\<not> radius v + 1 > width v + height v - 2"
      using tessellateRing_drops_all [OF ring s(3)] a by blast
    then show "radius v' \<le> width v' + height v' - 2" using fr by simp
  qed
  then show ?thesis using ring fr by simp
qed

lemma safeEngine_completes:
  assumes "safeEngine v"
  shows "\<exists>v'. Tessellate True v = Inr v' \<and> activeSeeds v' = [] \<and>
     radius v' \<le> max (radius v) (width v + height v - 1)"
  using assms
proof (induction True v rule: Tessellate.induct)
  case (1 v)
  show ?case
  proof (cases "activeSeeds v = []")
    case True
    then show ?thesis by (simp add: Tessellate_done)
  next
    case False
    from safeEngine_ring [OF "1.prems" False]
    obtain v1 where ring: "tessellateRing v = Inr v1" and safe: "safeEngine v1"
      and rad: "radius v1 = radius v + 1"
      by blast
    have "\<exists>v'. Tessellate True v1 = Inr v' \<and> activeSeeds v' = [] \<and>
       radius v' \<le> max (radius v1) (width v1 + height v1 - 1)"
      by (rule "1.hyps" [OF _ ring _ safe]) (use False in simp_all)
    then obtain v' where t: "Tessellate True v1 = Inr v'" "activeSeeds v' = []"
      "radius v' \<le> max (radius v1) (width v1 + height v1 - 1)"
      by blast
    have "radius v \<le> width v + height v - 2" using "1.prems" False by (simp add: safeEngine_def)
    then have "radius v' \<le> max (radius v) (width v + height v - 1)"
      using t(3) rad tessellateRing_frame(1,2) [OF ring] by simp
    then show ?thesis using t(1,2) ring False by (simp add: Tessellate_more)
  qed
qed

lemma Initialize_safe_completes:
  assumes "0 < w" "0 < h" "4 * (w * w + h * h) < 2 ^ 63" "w \<le> h + 1" "h \<le> 3 * w + 2"
    and "Initialize rnd w h n = Inr v"
  shows "\<exists>v'. Tessellate True v = Inr v' \<and> activeSeeds v' = [] \<and> radius v' \<le> w + h - 1"
proof -
  from Initialize_result_valid [OF assms(1,2,6)] Initialize_table [OF assms(1-3,6)]
  have v: "validGrid v" "seedsPlaced v" "width v = w" "height v = h"
    "distances v = distanceTable w h" "radius v = 0" "activeSeeds v = seeds v"
    by auto
  have "safeEngine v"
    using v assms(1,2,4,5) by (auto simp: safeEngine_def seedsPlaced_def)
  from safeEngine_completes [OF this] show ?thesis using v(3,4,6) assms(1,2) by auto
qed

section \<open>The distance table is too small for oblong grids\<close>

text \<open>
  \<open>Tessellate\<close> reads the table at \<open>[dx][dy]\<close> for the octant points of the ring, with
  \<open>dx\<close> up to half the radius and \<open>dy\<close> up to the radius, and the radius grows as long as
  some seed still claims a cell: up to \<open>width + height - 1\<close>. The table has
  \<open>2 * width + 1\<close> rows of \<open>2 * height + 1\<close> entries. When
  \<open>width - 1 \<le> height \<le> 3 * width + 2\<close> that is enough, and a run to completion ends with no
  active seed within \<open>width + height - 1\<close> rings (lemma \<open>Initialize_safe_completes\<close>, for
  grids whose squared distances fit an \<open>int\<close>). On other grids a seed can stay active until
  a lookup leaves the table.
\<close>

text \<open>
  Claim C3. A run to completion is claimed to end with an empty active list after a
  bounded number of rings. On a 3 by 1 grid with its one seed at (0,0) (every random draw
  0) the run \<open>Tessellate(true)\<close> does not end that way: the third ring panics with an
  index out of range, so the active list is never emptied.
\<close>

theorem Tessellate_to_completion_panics:
  "(case Initialize (\<lambda>k. 0) 3 1 1 of Inl e \<Rightarrow> Inl e | Inr v \<Rightarrow> Tessellate True v)
     = Inl IndexOutOfRange"
  by code_simp

text \<open>
  Claim C4. Every distance-table lookup is claimed to stay inside the table. On the same
  3 by 1 grid, stepping one ring at a time, two rings succeed and leave the seed active at
  radius 2; the next ring reads the table at \<open>[0][3]\<close>, and the second index 3 is
  beyond \<open>2 * height = 2\<close>: the lookup, and with it \<open>Tessellate\<close>, panics.
\<close>

theorem distance_lookup_out_of_range:
  "(case Initialize (\<lambda>k. 0) 3 1 1 of Inl e \<Rightarrow> False
    | Inr v \<Rightarrow> (case steps [False, False] v of Inl e \<Rightarrow> False
    | Inr v2 \<Rightarrow> length (activeSeeds v2) = 1 \<and> radius v2 = 2 \<and> 2 * height v2 = 2 \<and>
        index2 (distances v2) 0 (radius v2 + 1) = Inl IndexOutOfRange \<and>
        Tessellate False v2 = Inl IndexOutOfRange))"
  by code_simp

end
